theory Spec2Isabelle
  imports Main "HOL-Library.Word"
begin

section \<open>Bytes, errors and NumPy arrays\<close>

text \<open>
  A Python \<open>bytes\<close> object is a list of 8-bit words. Every exception the chunk engine
  can raise is a value of \<open>py_error\<close>; a function that can raise returns a sum with
  the error on the left.
\<close>

type_synonym byte = "8 word"
type_synonym bytes = "byte list"

datatype py_error =
    KeyError
  | IndexError
  | UnboundLocalError
  | NotImplementedError string
  | ValueError
  | TypeError
  | UnpicklingError
  | EOFError

text \<open>
  The numeric element types of NumPy, with the name that \<open>array.dtype.name\<close> gives
  and the element size in bytes. \<open>np_dtype\<close> is the way back from the name, as
  \<open>np.frombuffer(..., dtype=name)\<close> resolves it.
\<close>

datatype dtype =
    Bool | Int8 | UInt8 | Int16 | UInt16 | Int32 | UInt32 | Int64 | UInt64
  | Float16 | Float32 | Float64 | Complex64 | Complex128

fun itemsize :: "dtype \<Rightarrow> nat" where
  "itemsize Bool = 1"
| "itemsize Int8 = 1"
| "itemsize UInt8 = 1"
| "itemsize Int16 = 2"
| "itemsize UInt16 = 2"
| "itemsize Int32 = 4"
| "itemsize UInt32 = 4"
| "itemsize Int64 = 8"
| "itemsize UInt64 = 8"
| "itemsize Float16 = 2"
| "itemsize Float32 = 4"
| "itemsize Float64 = 8"
| "itemsize Complex64 = 8"
| "itemsize Complex128 = 16"

fun dtype_name :: "dtype \<Rightarrow> string" where
  "dtype_name Bool = ''bool''"
| "dtype_name Int8 = ''int8''"
| "dtype_name UInt8 = ''uint8''"
| "dtype_name Int16 = ''int16''"
| "dtype_name UInt16 = ''uint16''"
| "dtype_name Int32 = ''int32''"
| "dtype_name UInt32 = ''uint32''"
| "dtype_name Int64 = ''int64''"
| "dtype_name UInt64 = ''uint64''"
| "dtype_name Float16 = ''float16''"
| "dtype_name Float32 = ''float32''"
| "dtype_name Float64 = ''float64''"
| "dtype_name Complex64 = ''complex64''"
| "dtype_name Complex128 = ''complex128''"

definition all_dtypes :: "dtype list" where
  "all_dtypes = [Bool, Int8, UInt8, Int16, UInt16, Int32, UInt32, Int64, UInt64,
                 Float16, Float32, Float64, Complex64, Complex128]"

definition np_dtype :: "string \<Rightarrow> py_error + dtype" where
  "np_dtype name =
     (case find (\<lambda>d. dtype_name d = name) all_dtypes of
        None \<Rightarrow> Inl TypeError
      | Some d \<Rightarrow> Inr d)"

text \<open>
  An \<open>np.ndarray\<close> is its element type, its shape and its elements as row-major bytes
  (what \<open>tobytes()\<close> returns). A well-formed array holds exactly
  \<open>prod(shape) * itemsize\<close> bytes.
\<close>

record ndarray =
  dtype :: dtype
  shape :: "nat list"
  data :: bytes

definition wf_array :: "ndarray \<Rightarrow> bool" where
  "wf_array a = (length (data a) = prod_list (shape a) * itemsize (dtype a))"

definition sample_nbytes :: "ndarray \<Rightarrow> nat" where
  "sample_nbytes a = prod_list (tl (shape a)) * itemsize (dtype a)"

text \<open>\<open>array[i]\<close> for \<open>i\<close> in \<open>range(array.shape[0])\<close>: the \<open>i\<close>-th block along the first axis.\<close>

definition np_getitem :: "ndarray \<Rightarrow> nat \<Rightarrow> ndarray" where
  "np_getitem a i =
     \<lparr>dtype = dtype a, shape = tl (shape a),
      data = take (sample_nbytes a) (drop (i * sample_nbytes a) (data a))\<rparr>"

text \<open>\<open>np.frombuffer(b, dtype)\<close>: a flat array over the buffer; the buffer size must be a
  multiple of the element size.\<close>

definition np_frombuffer :: "bytes \<Rightarrow> dtype \<Rightarrow> py_error + ndarray" where
  "np_frombuffer b d =
     (if length b mod itemsize d \<noteq> 0 then Inl ValueError
      else Inr \<lparr>dtype = d, shape = [length b div itemsize d], data = b\<rparr>)"

text \<open>\<open>a.reshape(shape)\<close>: the element count must not change.\<close>

definition np_reshape :: "ndarray \<Rightarrow> nat list \<Rightarrow> py_error + ndarray" where
  "np_reshape a shp =
     (if prod_list shp = prod_list (shape a) then Inr (a\<lparr>shape := shp\<rparr>) else Inl ValueError)"

text \<open>
  \<open>np.array(samples)\<close> on a list of arrays: an empty list gives the empty
  \<open>float64\<close> array of shape \<open>(0,)\<close>; arrays of one shape are stacked along a new first
  axis; a ragged list has no array of numbers as its value and is reported as
  \<open>ValueError\<close>.
\<close>

definition np_array :: "ndarray list \<Rightarrow> py_error + ndarray" where
  "np_array samples =
     (case samples of
        [] \<Rightarrow> Inr \<lparr>dtype = Float64, shape = [0], data = []\<rparr>
      | s # ss \<Rightarrow>
          if list_all (\<lambda>x. shape x = shape s \<and> dtype x = dtype s) ss
          then Inr \<lparr>dtype = dtype s, shape = length samples # shape s,
                    data = concat (map data samples)\<rparr>
          else Inl ValueError)"

text \<open>Modelled from the spec: \<open>row_wise_to_bytes\<close> (\<open>flatten.py\<close> is not among the
  sources) maps one sample to its canonical row-major byte representation.\<close>

definition row_wise_to_bytes :: "ndarray \<Rightarrow> bytes" where
  "row_wise_to_bytes a = data a"

text \<open>Modelled from the spec: \<open>normalize_and_batchify_shape\<close> (\<open>hub.util.array\<close> is not
  among the sources): if \<open>batched\<close> is false, prepend a singleton leading axis;
  otherwise require rank at least 1.\<close>

definition normalize_and_batchify_shape :: "ndarray \<Rightarrow> bool \<Rightarrow> py_error + ndarray" where
  "normalize_and_batchify_shape a batched =
     (if \<not> batched then Inr (a\<lparr>shape := 1 # shape a\<rparr>)
      else if shape a = [] then Inl ValueError
      else Inr a)"

section \<open>Python lists: slices and insertion\<close>

text \<open>
  A Python \<open>slice(start, stop, step)\<close>, each part an integer or \<open>None\<close>.
  \<open>slice_indices\<close> is \<open>slice.indices(len)\<close>, \<open>py_range\<close> is \<open>range(start, stop, step)\<close>
  for a non-zero step and \<open>py_getslice\<close> is \<open>xs[s]\<close>.
\<close>

record pyslice =
  sl_start :: "int option"
  sl_stop :: "int option"
  sl_step :: "int option"

definition slice_None :: pyslice where
  "slice_None = \<lparr>sl_start = None, sl_stop = None, sl_step = None\<rparr>"

definition clamp_index :: "int \<Rightarrow> int \<Rightarrow> int \<Rightarrow> int \<Rightarrow> int" where
  "clamp_index i n lower upper = (if i < 0 then max (i + n) lower else min i upper)"

definition slice_indices :: "pyslice \<Rightarrow> nat \<Rightarrow> py_error + (int \<times> int \<times> int)" where
  "slice_indices s len =
     (let step = (case sl_step s of None \<Rightarrow> 1 | Some k \<Rightarrow> k) in
      if step = 0 then Inl ValueError
      else
        let n = int len;
            lower = (if step < 0 then - 1 else 0);
            upper = (if step < 0 then n - 1 else n);
            start = (case sl_start s of
                       None \<Rightarrow> (if step < 0 then upper else lower)
                     | Some a \<Rightarrow> clamp_index a n lower upper);
            stop = (case sl_stop s of
                      None \<Rightarrow> (if step < 0 then lower else upper)
                    | Some b \<Rightarrow> clamp_index b n lower upper)
        in Inr (start, stop, step))"

definition py_range :: "int \<Rightarrow> int \<Rightarrow> int \<Rightarrow> int list" where
  "py_range start stop step =
     (let n = (if step > 0 then (if start < stop then nat ((stop - start - 1) div step + 1) else 0)
               else (if stop < start then nat ((start - stop - 1) div (- step) + 1) else 0))
      in map (\<lambda>k. start + int k * step) [0..<n])"

definition py_getslice :: "'a list \<Rightarrow> pyslice \<Rightarrow> py_error + 'a list" where
  "py_getslice xs s =
     (case slice_indices s (length xs) of
        Inl e \<Rightarrow> Inl e
      | Inr (start, stop, step) \<Rightarrow> Inr (map (\<lambda>i. xs ! nat i) (py_range start stop step)))"

text \<open>\<open>xs.insert(i, x)\<close> for \<open>i \<ge> 0\<close>: an index past the end appends.\<close>

definition py_insert :: "nat \<Rightarrow> 'a \<Rightarrow> 'a list \<Rightarrow> 'a list" where
  "py_insert i x xs = take i xs @ x # drop i xs"

text \<open>\<open>enumerate(xs)\<close>.\<close>

definition py_enumerate :: "'a list \<Rightarrow> (nat \<times> 'a) list" where
  "py_enumerate xs = zip [0..<length xs] xs"

section \<open>Keys, the storage provider and pickled records\<close>

text \<open>\<open>os.path.join(path, *parts)\<close> of \<open>posixpath\<close>: an absolute part restarts the path,
  a separator is added unless the path is empty or already ends in one.\<close>

fun os_path_join :: "string \<Rightarrow> string list \<Rightarrow> string" where
  "os_path_join path [] = path"
| "os_path_join path (b # bs) =
     os_path_join
       (if b \<noteq> [] \<and> hd b = CHR ''/'' then b
        else if path = [] \<or> last path = CHR ''/'' then path @ b
        else path @ ''/'' @ b) bs"

definition CHUNKS_FOLDER :: string where "CHUNKS_FOLDER = ''chunks''"
definition META_FILENAME :: string where "META_FILENAME = ''meta.json''"
definition INDEX_MAP_FILENAME :: string where "INDEX_MAP_FILENAME = ''index_map.json''"
definition DEFAULT_CHUNK_SIZE :: nat where "DEFAULT_CHUNK_SIZE = 16 * (1000 * (1000 * 1))"

text \<open>Modelled from the spec: the key helpers of \<open>hub.util.keys\<close> (not among the sources).
  For a tensor at key \<open>K\<close> the meta lives at \<open>K/meta.json\<close>, the index map at
  \<open>K/index_map.json\<close> and a chunk at \<open>K/chunks/<chunk_id>\<close>; the path is formed with the
  join that the reader itself uses for chunk keys.\<close>

definition get_meta_key :: "string \<Rightarrow> string" where
  "get_meta_key key = os_path_join key [META_FILENAME]"

definition get_index_map_key :: "string \<Rightarrow> string" where
  "get_index_map_key key = os_path_join key [INDEX_MAP_FILENAME]"

definition get_chunk_key :: "string \<Rightarrow> string \<Rightarrow> string" where
  "get_chunk_key key chunk_name = os_path_join key [CHUNKS_FOLDER, chunk_name]"

text \<open>One index-map entry per sample and the tensor meta, as the writer builds them.\<close>

record index_entry =
  chunk_names :: "string list"
  start_byte :: nat
  end_byte :: nat
  entry_shape :: "nat list"

record tensor_meta =
  meta_chunk_size :: nat
  meta_dtype :: string
  meta_length :: nat
  min_shape :: "nat list"
  max_shape :: "nat list"

text \<open>
  A stored blob is a chunk's raw bytes or \<open>pickle.dumps\<close> of a record: the encoding is a
  black box that \<open>pickle.loads\<close> inverts, so a pickled value is kept as the value itself.
  The storage provider is a partial map from keys to blobs.
\<close>

datatype blob =
    Chunk bytes
  | Pickled_meta tensor_meta
  | Pickled_index_map "index_entry list"

type_synonym storage = "string \<rightharpoonup> blob"

text \<open>The world a write runs in: the provider's contents and the number of chunk names
  drawn so far. \<open>_random_chunk_name\<close> is \<open>str(uuid1())\<close>; the \<open>n\<close>-th name drawn is
  \<open>uuid n\<close>, for a name source \<open>uuid\<close> passed to every function that draws.\<close>

type_synonym world = "storage \<times> nat"

type_synonym 'a outcome = "py_error \<times> world + 'a \<times> world"

definition well_named :: "string \<Rightarrow> bool" where
  "well_named name = (name = [] \<or> hd name \<noteq> CHR ''/'')"

definition read_chunk :: "storage \<Rightarrow> string \<Rightarrow> py_error + bytes" where
  "read_chunk st k =
     (case st k of
        None \<Rightarrow> Inl KeyError
      | Some (Chunk c) \<Rightarrow> Inr c
      | Some _ \<Rightarrow> Inl TypeError)"

section \<open>The chunk splitter and joiner\<close>

text \<open>Modelled from the spec: \<open>generate_chunks\<close> (\<open>chunker.py\<close> is not among the sources).
  Given the bytes of one sample, the chunk size and the bytes left in the last chunk: if
  the latter is positive the first slice has at most that many bytes, every later slice
  has at most \<open>chunk_size\<close> bytes; no slice is empty, the whole payload is consumed and
  only the last slice may be shorter than \<open>chunk_size\<close>. The generator is pure, so the
  lazy sequence is the list of its slices. The spec gives no behaviour for a chunk size
  of 0; no slice is produced there.\<close>

function chunk_slices :: "nat \<Rightarrow> bytes \<Rightarrow> bytes list" where
  "chunk_slices n b = (if b = [] \<or> n = 0 then [] else take n b # chunk_slices n (drop n b))"
  by pat_completeness auto
termination
  by (relation "measure (\<lambda>(n, b). length b)") auto

declare chunk_slices.simps [simp del]

definition generate_chunks :: "bytes \<Rightarrow> nat \<Rightarrow> nat \<Rightarrow> bytes list" where
  "generate_chunks payload chunk_size bytes_left_in_last_chunk =
     (if payload = [] then []
      else if bytes_left_in_last_chunk > 0
      then take bytes_left_in_last_chunk payload
             # chunk_slices chunk_size (drop bytes_left_in_last_chunk payload)
      else chunk_slices chunk_size payload)"

text \<open>Modelled from the spec: \<open>join_chunks\<close> (\<open>chunker.py\<close> is not among the sources).
  From the first chunk take the bytes from \<open>start_byte\<close> on, append all intermediate
  chunks in full, from the last chunk take the bytes before \<open>end_byte\<close>; for a single
  chunk the range is \<open>[start_byte..end_byte]\<close>.\<close>

fun join_chunks :: "bytes list \<Rightarrow> nat \<Rightarrow> nat \<Rightarrow> bytes" where
  "join_chunks [] start_b end_b = []"
| "join_chunks [c] start_b end_b = drop start_b (take end_b c)"
| "join_chunks (c # cs) start_b end_b = drop start_b c @ concat (butlast cs) @ take end_b (last cs)"

section \<open>The writer (\<open>write.py\<close>)\<close>

definition write_tensor_meta :: "string \<Rightarrow> storage \<Rightarrow> tensor_meta \<Rightarrow> storage" where
  "write_tensor_meta key st meta = st(get_meta_key key \<mapsto> Pickled_meta meta)"

text \<open>\<open>_get_last_chunk\<close>: the name and bytes of the last chunk of the last entry, or the
  empty name and empty bytes when the index map is empty.\<close>

definition get_last_chunk ::
  "string \<Rightarrow> index_entry list \<Rightarrow> storage \<Rightarrow> py_error + (string \<times> bytes)" where
  "get_last_chunk key index_map st =
     (if length index_map > 0 then
        (case chunk_names (last index_map) of
           [] \<Rightarrow> Inl IndexError
         | n # ns \<Rightarrow>
             (case read_chunk st (get_chunk_key key (last (n # ns))) of
                Inl e \<Rightarrow> Inl e
              | Inr c \<Rightarrow> Inr (last (n # ns), c)))
      else Inr ([], []))"

text \<open>The local variables of \<open>_write_bytes\<close> that its loop reads and writes, with the
  storage and the count of names drawn. \<open>end_byte\<close> is unbound until the loop body has
  run once.\<close>

record write_vars =
  extend_last_chunk :: bool
  last_chunk :: bytes
  last_chunk_name :: string
  v_chunk_names :: "string list"
  v_start_byte :: nat
  v_end_byte :: "nat option"
  v_storage :: storage
  v_clock :: nat

text \<open>One pass of the loop body of \<open>_write_bytes\<close> for a slice \<open>chunk\<close>.\<close>

definition write_chunk ::
  "(nat \<Rightarrow> string) \<Rightarrow> string \<Rightarrow> nat \<Rightarrow> index_entry list \<Rightarrow> bytes \<Rightarrow> write_vars
   \<Rightarrow> py_error + write_vars" where
  "write_chunk uuid key chunk_size index_map chunk v =
     (if extend_last_chunk v then
        (if index_map = [] then Inl IndexError
         else
           let chunk_name = last_chunk_name v;
               chunk' = last_chunk v @ chunk
           in Inr (v\<lparr>extend_last_chunk := \<not> (length chunk' \<ge> chunk_size),
                     v_start_byte := end_byte (last index_map),
                     v_end_byte := Some (length chunk'),
                     v_storage := (v_storage v)(get_chunk_key key chunk_name \<mapsto> Chunk chunk'),
                     v_chunk_names := v_chunk_names v @ [chunk_name],
                     last_chunk := chunk',
                     last_chunk_name := chunk_name\<rparr>))
      else
        let chunk_name = uuid (v_clock v)
        in Inr (v\<lparr>v_clock := Suc (v_clock v),
                  v_end_byte := Some (length chunk),
                  v_storage := (v_storage v)(get_chunk_key key chunk_name \<mapsto> Chunk chunk),
                  v_chunk_names := v_chunk_names v @ [chunk_name],
                  last_chunk := chunk,
                  last_chunk_name := chunk_name\<rparr>))"

fun write_chunks ::
  "(nat \<Rightarrow> string) \<Rightarrow> string \<Rightarrow> nat \<Rightarrow> index_entry list \<Rightarrow> bytes list \<Rightarrow> write_vars
   \<Rightarrow> py_error \<times> write_vars + write_vars" where
  "write_chunks uuid key chunk_size index_map [] v = Inr v"
| "write_chunks uuid key chunk_size index_map (chunk # rest) v =
     (case write_chunk uuid key chunk_size index_map chunk v of
        Inl e \<Rightarrow> Inl (e, v)
      | Inr v' \<Rightarrow> write_chunks uuid key chunk_size index_map rest v')"

text \<open>\<open>_write_bytes\<close>: chunk and write the bytes of one sample; the result is the entry's
  chunk names, start byte and end byte.\<close>

definition write_bytes ::
  "(nat \<Rightarrow> string) \<Rightarrow> bytes \<Rightarrow> string \<Rightarrow> nat \<Rightarrow> world \<Rightarrow> index_entry list
   \<Rightarrow> (string list \<times> nat \<times> nat) outcome" where
  "write_bytes uuid b key chunk_size w index_map =
     (case get_last_chunk key index_map (fst w) of
        Inl e \<Rightarrow> Inl (e, w)
      | Inr (name, chunk) \<Rightarrow>
          let ext = (length index_map > 0 \<and> length chunk < chunk_size);
              bllc = (if ext then chunk_size - length chunk else 0);
              v = \<lparr>extend_last_chunk = ext, last_chunk = chunk, last_chunk_name = name,
                   v_chunk_names = [], v_start_byte = 0, v_end_byte = None,
                   v_storage = fst w, v_clock = snd w\<rparr>
          in (case write_chunks uuid key chunk_size index_map
                     (generate_chunks b chunk_size bllc) v of
                Inl (e, v') \<Rightarrow> Inl (e, (v_storage v', v_clock v'))
              | Inr v' \<Rightarrow>
                  (case v_end_byte v' of
                     None \<Rightarrow> Inl (UnboundLocalError, (v_storage v', v_clock v'))
                   | Some e \<Rightarrow>
                       Inr ((v_chunk_names v', v_start_byte v', e),
                            (v_storage v', v_clock v')))))"

text \<open>\<open>_write_sample\<close>: the entry of the sample, with its shape, is appended to the index
  map.\<close>

definition write_sample ::
  "(nat \<Rightarrow> string) \<Rightarrow> ndarray \<Rightarrow> string \<Rightarrow> nat \<Rightarrow> world \<Rightarrow> index_entry list
   \<Rightarrow> (ndarray \<Rightarrow> bytes) \<Rightarrow> (index_entry list) outcome" where
  "write_sample uuid sample key chunk_size w index_map to_bytes =
     (case write_bytes uuid (to_bytes sample) key chunk_size w index_map of
        Inl err \<Rightarrow> Inl err
      | Inr ((names, s, e), w') \<Rightarrow>
          Inr (index_map @ [\<lparr>chunk_names = names, start_byte = s, end_byte = e,
                              entry_shape = shape sample\<rparr>], w'))"

text \<open>The loop of \<open>write_array\<close> over the samples \<open>array[i]\<close>.\<close>

fun write_samples ::
  "(nat \<Rightarrow> string) \<Rightarrow> ndarray list \<Rightarrow> string \<Rightarrow> nat \<Rightarrow> world \<Rightarrow> index_entry list
   \<Rightarrow> (ndarray \<Rightarrow> bytes) \<Rightarrow> (index_entry list) outcome" where
  "write_samples uuid [] key chunk_size w index_map to_bytes = Inr (index_map, w)"
| "write_samples uuid (sample # rest) key chunk_size w index_map to_bytes =
     (case write_sample uuid sample key chunk_size w index_map to_bytes of
        Inl err \<Rightarrow> Inl err
      | Inr (index_map', w') \<Rightarrow> write_samples uuid rest key chunk_size w' index_map' to_bytes)"

definition already_exists :: py_error where
  "already_exists = NotImplementedError ''Appending is not supported yet.''"

definition write_array ::
  "(nat \<Rightarrow> string) \<Rightarrow> ndarray \<Rightarrow> string \<Rightarrow> world \<Rightarrow> nat \<Rightarrow> bool \<Rightarrow> (ndarray \<Rightarrow> bytes)
   \<Rightarrow> unit outcome" where
  "write_array uuid array key w chunk_size batched to_bytes =
     (case normalize_and_batchify_shape array batched of
        Inl e \<Rightarrow> Inl (e, w)
      | Inr arr \<Rightarrow>
          if fst w (get_meta_key key) \<noteq> None \<or> fst w (get_index_map_key key) \<noteq> None
          then Inl (already_exists, w)
          else
            (case shape arr of
               [] \<Rightarrow> Inl (IndexError, w)
             | n # sample_shape \<Rightarrow>
                 let meta = \<lparr>meta_chunk_size = chunk_size, meta_dtype = dtype_name (dtype arr),
                             meta_length = n, min_shape = sample_shape,
                             max_shape = sample_shape\<rparr>
                 in (case write_samples uuid (map (np_getitem arr) [0..<n]) key chunk_size w []
                            to_bytes of
                       Inl err \<Rightarrow> Inl err
                     | Inr (index_map, (st, clock)) \<Rightarrow>
                         Inr ((), ((write_tensor_meta key st meta)
                                     (get_index_map_key key \<mapsto> Pickled_index_map index_map),
                                   clock)))))"

section \<open>The reader (\<open>read.py\<close>)\<close>

text \<open>What \<open>pickle.loads\<close> raises on a blob that is not the pickle the caller expects:
  \<open>EOFError\<close> on the empty blob (\<open>Ran out of input\<close>); every other such blob is reported
  as \<open>UnpicklingError\<close>.\<close>

definition pickle_loads_error :: "blob \<Rightarrow> py_error" where
  "pickle_loads_error b = (if b = Chunk [] then EOFError else UnpicklingError)"

definition read_tensor_meta :: "string \<Rightarrow> storage \<Rightarrow> py_error + tensor_meta" where
  "read_tensor_meta key st =
     (case st (get_meta_key key) of
        None \<Rightarrow> Inl KeyError
      | Some (Pickled_meta m) \<Rightarrow> Inr m
      | Some b \<Rightarrow> Inl (pickle_loads_error b))"

text \<open>\<open>pickle.loads(storage[get_index_map_key(key)])\<close> in \<open>read_array\<close>.\<close>

definition read_index_map :: "string \<Rightarrow> storage \<Rightarrow> py_error + index_entry list" where
  "read_index_map key st =
     (case st (get_index_map_key key) of
        None \<Rightarrow> Inl KeyError
      | Some (Pickled_index_map m) \<Rightarrow> Inr m
      | Some b \<Rightarrow> Inl (pickle_loads_error b))"

text \<open>The chunk loop of \<open>_get_sample\<close>.\<close>

fun fetch_chunks :: "string \<Rightarrow> storage \<Rightarrow> string list \<Rightarrow> py_error + bytes list" where
  "fetch_chunks key st [] = Inr []"
| "fetch_chunks key st (chunk_name # rest) =
     (case read_chunk st (os_path_join key [''chunks'', chunk_name]) of
        Inl e \<Rightarrow> Inl e
      | Inr chunk \<Rightarrow>
          (case fetch_chunks key st rest of
             Inl e \<Rightarrow> Inl e
           | Inr chunks \<Rightarrow> Inr (chunk # chunks)))"

text \<open>The bytes of one sample, as \<open>_get_sample\<close> joins them.\<close>

definition sample_bytes :: "string \<Rightarrow> storage \<Rightarrow> index_entry \<Rightarrow> py_error + bytes" where
  "sample_bytes key st index_entry =
     (case fetch_chunks key st (chunk_names index_entry) of
        Inl e \<Rightarrow> Inl e
      | Inr chunks \<Rightarrow> Inr (join_chunks chunks (start_byte index_entry) (end_byte index_entry)))"

definition get_sample ::
  "nat \<Rightarrow> string \<Rightarrow> index_entry \<Rightarrow> storage \<Rightarrow> tensor_meta \<Rightarrow> ndarray list
   \<Rightarrow> py_error + ndarray list" where
  "get_sample index key index_entry st meta samples =
     (case sample_bytes key st index_entry of
        Inl e \<Rightarrow> Inl e
      | Inr combined_bytes \<Rightarrow>
          (case np_dtype (meta_dtype meta) of
             Inl e \<Rightarrow> Inl e
           | Inr d \<Rightarrow>
               (case np_frombuffer combined_bytes d of
                  Inl e \<Rightarrow> Inl e
                | Inr out_array \<Rightarrow>
                    (case np_reshape out_array (entry_shape index_entry) of
                       Inl e \<Rightarrow> Inl e
                     | Inr a \<Rightarrow> Inr (py_insert index a samples)))))"

text \<open>\<open>single_threaded_get_samples\<close>: the samples of the slice, one after the other; the
  first exception ends the read.\<close>

fun get_samples_loop ::
  "(nat \<times> index_entry) list \<Rightarrow> string \<Rightarrow> storage \<Rightarrow> tensor_meta \<Rightarrow> ndarray list
   \<Rightarrow> py_error + ndarray list" where
  "get_samples_loop [] key st meta samples = Inr samples"
| "get_samples_loop ((index, index_entry) # rest) key st meta samples =
     (case get_sample index key index_entry st meta samples of
        Inl e \<Rightarrow> Inl e
      | Inr samples' \<Rightarrow> get_samples_loop rest key st meta samples')"

definition single_threaded_get_samples ::
  "index_entry list \<Rightarrow> pyslice \<Rightarrow> string \<Rightarrow> storage \<Rightarrow> tensor_meta \<Rightarrow> ndarray list
   \<Rightarrow> py_error + ndarray list" where
  "single_threaded_get_samples index_map array_slice key st meta samples =
     (case py_getslice index_map array_slice of
        Inl e \<Rightarrow> Inl e
      | Inr entries \<Rightarrow> get_samples_loop (py_enumerate entries) key st meta samples)"

text \<open>
  \<open>multi_threaded_get_samples\<close>: one task per entry of the slice is submitted to the
  pool and the \<open>with\<close> block joins them all. The only shared effect of a task is its
  final \<open>samples.insert(index, ...)\<close>, so a run is fixed by the order in which the tasks
  complete: \<open>completion\<close> lists the task positions in that order. An exception in a
  task stays in its future, which nobody reads: the task leaves \<open>samples\<close> as it was.
\<close>

fun run_tasks ::
  "nat list \<Rightarrow> (nat \<times> index_entry) list \<Rightarrow> string \<Rightarrow> storage \<Rightarrow> tensor_meta \<Rightarrow> ndarray list
   \<Rightarrow> ndarray list" where
  "run_tasks [] tasks key st meta samples = samples"
| "run_tasks (p # ps) tasks key st meta samples =
     run_tasks ps tasks key st meta
       (if p < length tasks then
          (case get_sample (fst (tasks ! p)) key (snd (tasks ! p)) st meta samples of
             Inl e \<Rightarrow> samples
           | Inr samples' \<Rightarrow> samples')
        else samples)"

definition multi_threaded_get_samples ::
  "nat list \<Rightarrow> index_entry list \<Rightarrow> pyslice \<Rightarrow> string \<Rightarrow> storage \<Rightarrow> tensor_meta \<Rightarrow> ndarray list
   \<Rightarrow> py_error + ndarray list" where
  "multi_threaded_get_samples completion index_map array_slice key st meta samples =
     (case py_getslice index_map array_slice of
        Inl e \<Rightarrow> Inl e
      | Inr entries \<Rightarrow> Inr (run_tasks completion (py_enumerate entries) key st meta samples))"

definition read_array ::
  "nat list \<Rightarrow> string \<Rightarrow> storage \<Rightarrow> pyslice \<Rightarrow> bool \<Rightarrow> py_error + ndarray" where
  "read_array completion key st array_slice multi_threaded =
     (case read_tensor_meta key st of
        Inl e \<Rightarrow> Inl e
      | Inr meta \<Rightarrow>
          (case read_index_map key st of
             Inl e \<Rightarrow> Inl e
           | Inr index_map \<Rightarrow>
               (case (if multi_threaded
                      then multi_threaded_get_samples completion index_map array_slice key st
                             meta []
                      else single_threaded_get_samples index_map array_slice key st meta [])
                of
                  Inl e \<Rightarrow> Inl e
                | Inr samples \<Rightarrow> np_array samples)))"

section \<open>Predicates used to state and prove the properties\<close>

text \<open>The prefix that the path join puts before a file name under \<open>key\<close>.\<close>

definition chunks_dir :: "string \<Rightarrow> string" where
  "chunks_dir key = (if key = [] \<or> last key = CHR ''/'' then key else key @ ''/'')"

text \<open>A name source for the worked examples: the \<open>n\<close>-th name is \<open>n + 1\<close> letters
  \<open>c\<close>. The array of scenario S2: two samples of three bytes each.\<close>

definition example_uuid :: "nat \<Rightarrow> string" where
  "example_uuid n = replicate (Suc n) CHR ''c''"

definition example_array :: ndarray where
  "example_array = \<lparr>dtype = UInt8, shape = [2, 3], data = [1, 2, 3, 4, 5, 6]\<rparr>"

text \<open>The storage that writing \<open>example_array\<close> with chunk size 4 under the key
  \<open>tensor\<close> leaves from an empty provider.\<close>

definition example_storage :: storage where
  "example_storage =
     [''tensor/chunks/c'' \<mapsto> Chunk [1, 2, 3, 4],
      ''tensor/chunks/cc'' \<mapsto> Chunk [5, 6],
      ''tensor/meta.json'' \<mapsto>
        Pickled_meta \<lparr>meta_chunk_size = 4, meta_dtype = ''uint8'', meta_length = 2,
                      min_shape = [3], max_shape = [3]\<rparr>,
      ''tensor/index_map.json'' \<mapsto>
        Pickled_index_map
          [\<lparr>chunk_names = [''c''], start_byte = 0, end_byte = 3, entry_shape = [3]\<rparr>,
           \<lparr>chunk_names = [''c'', ''cc''], start_byte = 3, end_byte = 2,
             entry_shape = [3]\<rparr>]]"

text \<open>The name source is usable: distinct draws give distinct names, and no name starts
  with the path separator (a UUID never does).\<close>

definition names_ok :: "(nat \<Rightarrow> string) \<Rightarrow> bool" where
  "names_ok uuid = (inj uuid \<and> (\<forall>n. well_named (uuid n)))"

text \<open>The chunks \<open>sl\<close> stored under the names drawn from position \<open>clock\<close> on.\<close>

fun store_chunks :: "(nat \<Rightarrow> string) \<Rightarrow> string \<Rightarrow> nat \<Rightarrow> bytes list \<Rightarrow> storage \<Rightarrow> storage" where
  "store_chunks uuid key clock [] st = st"
| "store_chunks uuid key clock (c # cs) st =
     store_chunks uuid key (Suc clock) cs (st(get_chunk_key key (uuid clock) \<mapsto> Chunk c))"

text \<open>The length of the chunk stored under a chunk name, if there is one.\<close>

definition chunk_len :: "string \<Rightarrow> storage \<Rightarrow> string \<Rightarrow> nat option" where
  "chunk_len key st name =
     (case st (get_chunk_key key name) of
        Some (Chunk c) \<Rightarrow> Some (length c)
      | _ \<Rightarrow> None)"

text \<open>The number of bytes an index entry covers, counted on the stored chunks: the first
  chunk from \<open>start_byte\<close> on, the intermediate chunks in full and \<open>end_byte\<close> bytes of the
  last chunk; \<open>end_byte - start_byte\<close> when the entry lists one chunk.\<close>

fun covered_length :: "bytes list \<Rightarrow> nat \<Rightarrow> nat \<Rightarrow> nat" where
  "covered_length [] start_b end_b = 0"
| "covered_length [c] start_b end_b = end_b - start_b"
| "covered_length (c # cs) start_b end_b =
     (length c - start_b) + sum_list (map length (butlast cs)) + end_b"

definition covered_bytes :: "string \<Rightarrow> storage \<Rightarrow> index_entry \<Rightarrow> nat option" where
  "covered_bytes key st e =
     (case fetch_chunks key st (chunk_names e) of
        Inl err \<Rightarrow> None
      | Inr chunks \<Rightarrow> Some (covered_length chunks (start_byte e) (end_byte e)))"

text \<open>An entry reads back as the bytes \<open>b\<close>, and stays so when the tail chunk grows: its
  chunks before the last are full, and its end byte lies within its last chunk.\<close>

definition entry_ok :: "string \<Rightarrow> nat \<Rightarrow> storage \<Rightarrow> index_entry \<Rightarrow> bytes \<Rightarrow> bool" where
  "entry_ok key cs st e b =
     (chunk_names e \<noteq> []
      \<and> list_all (\<lambda>n. chunk_len key st n = Some cs) (butlast (chunk_names e))
      \<and> (case chunk_len key st (last (chunk_names e)) of
            None \<Rightarrow> False
          | Some l \<Rightarrow> end_byte e \<le> l)
      \<and> sample_bytes key st e = Inr b)"

text \<open>Two consecutive entries share a boundary chunk, or the second starts at offset 0 of
  a chunk that none of the entries \<open>earlier\<close> names.\<close>

definition linked :: "index_entry list \<Rightarrow> index_entry \<Rightarrow> index_entry \<Rightarrow> bool" where
  "linked earlier e e' =
     (chunk_names e' \<noteq> []
      \<and> ((hd (chunk_names e') = last (chunk_names e) \<and> start_byte e' = end_byte e)
         \<or> (start_byte e' = 0
            \<and> list_all (\<lambda>x. hd (chunk_names e') \<notin> set (chunk_names x)) earlier)))"

definition adjacent :: "index_entry list \<Rightarrow> bool" where
  "adjacent im =
     (\<forall>i. Suc i < length im \<longrightarrow> linked (take (Suc i) im) (im ! i) (im ! Suc i))"

text \<open>What holds of the storage, the name count and the index map after each sample of
  one \<open>write_array\<close> call that started with the storage \<open>st0\<close> and \<open>c0\<close> names drawn:
  every entry reads back as its sample, the entries name only chunks of this call, each
  such chunk is non-empty and at most \<open>cs\<close> long with only the newest one possibly
  shorter, the last entry ends at the end of the newest chunk, and no other key
  changed.\<close>

definition writer_inv ::
  "(nat \<Rightarrow> string) \<Rightarrow> string \<Rightarrow> nat \<Rightarrow> nat \<Rightarrow> storage \<Rightarrow> storage \<Rightarrow> nat
   \<Rightarrow> index_entry list \<Rightarrow> bytes list \<Rightarrow> bool" where
  "writer_inv uuid key cs c0 st0 st clk im bs =
     (c0 \<le> clk
      \<and> list_all2 (entry_ok key cs st) im bs
      \<and> (\<forall>e \<in> set im. set (chunk_names e) \<subseteq> uuid ` {c0..<clk})
      \<and> (\<forall>j. c0 \<le> j \<and> j < clk \<longrightarrow>
            (\<exists>l. chunk_len key st (uuid j) = Some l \<and> 0 < l \<and> l \<le> cs
                 \<and> (l < cs \<longrightarrow> Suc j = clk)))
      \<and> (im = [] \<longrightarrow> clk = c0)
      \<and> (im \<noteq> [] \<longrightarrow>
            c0 < clk \<and> last (chunk_names (last im)) = uuid (clk - 1)
            \<and> chunk_len key st (uuid (clk - 1)) = Some (end_byte (last im)))
      \<and> (\<forall>k. (\<forall>j. c0 \<le> j \<and> j < clk \<longrightarrow> k \<noteq> get_chunk_key key (uuid j)) \<longrightarrow> st k = st0 k)
      \<and> adjacent im)"

section \<open>The tensor view (\<open>tensor.py\<close>)\<close>

text \<open>
  A \<open>Tensor\<close> holds its key, its slice and what \<open>load_meta\<close> read; its provider is the
  storage of the world it is used in. A subscript is an integer or a slice.
\<close>

record tensor =
  t_key :: string
  t_slice :: pyslice
  num_samples :: nat
  t_shape :: "nat list"

datatype subscript = Index int | Slice pyslice

text \<open>\<open>Tensor.__init__\<close>: the fields are set and \<open>load_meta\<close> reads the tensor's meta, which
  must be in the storage.\<close>

definition Tensor_init :: "string \<Rightarrow> storage \<Rightarrow> pyslice \<Rightarrow> py_error + tensor" where
  "Tensor_init key st tensor_slice =
     (case read_tensor_meta key st of
        Inl e \<Rightarrow> Inl e
      | Inr meta \<Rightarrow>
          Inr \<lparr>t_key = key, t_slice = tensor_slice, num_samples = meta_length meta,
               t_shape = max_shape meta\<rparr>)"

definition load_meta :: "tensor \<Rightarrow> storage \<Rightarrow> py_error + tensor" where
  "load_meta t st =
     (case read_tensor_meta (t_key t) st of
        Inl e \<Rightarrow> Inl e
      | Inr meta \<Rightarrow> Inr (t\<lparr>num_samples := meta_length meta, t_shape := max_shape meta\<rparr>))"

text \<open>The slice an integer subscript stands for: \<open>slice(item, item + 1)\<close>.\<close>

definition item_slice :: "subscript \<Rightarrow> pyslice" where
  "item_slice item =
     (case item of
        Index i \<Rightarrow> \<lparr>sl_start = Some i, sl_stop = Some (i + 1), sl_step = None\<rparr>
      | Slice s \<Rightarrow> s)"

text \<open>\<open>Tensor.__getitem__\<close>. The helper \<open>merge_slices\<close> (\<open>hub.util.slice\<close>) is not among the
  sources; it is a parameter, and what the spec says of it (the derived view's slice
  composes with the parent's) is the predicate \<open>composes\<close> below.\<close>

definition Tensor_getitem ::
  "(pyslice \<Rightarrow> pyslice \<Rightarrow> pyslice) \<Rightarrow> tensor \<Rightarrow> storage \<Rightarrow> subscript \<Rightarrow> py_error + tensor" where
  "Tensor_getitem merge_slices t st item =
     Tensor_init (t_key t) st (merge_slices (t_slice t) (item_slice item))"

definition unsupported_assignment :: py_error where
  "unsupported_assignment =
     NotImplementedError ''Assignment to Tensor slices not currently supported!''"

text \<open>\<open>Tensor.__setitem__\<close>.\<close>

definition Tensor_setitem ::
  "(pyslice \<Rightarrow> pyslice \<Rightarrow> pyslice) \<Rightarrow> (nat \<Rightarrow> string) \<Rightarrow> tensor \<Rightarrow> world \<Rightarrow> subscript
   \<Rightarrow> ndarray \<Rightarrow> tensor outcome" where
  "Tensor_setitem merge_slices uuid t w item v =
     (case Tensor_getitem merge_slices t (fst w) item of
        Inl e \<Rightarrow> Inl (e, w)
      | Inr sliced_self \<Rightarrow>
          if t_slice sliced_self \<noteq> slice_None then Inl (unsupported_assignment, w)
          else
            (case write_array uuid v (t_key t) w DEFAULT_CHUNK_SIZE True row_wise_to_bytes of
               Inl err \<Rightarrow> Inl err
             | Inr (u, w') \<Rightarrow>
                 (case load_meta t (fst w') of
                    Inl e \<Rightarrow> Inl (e, w')
                  | Inr t' \<Rightarrow> Inr (t', w'))))"

text \<open>Modelled from the spec: what \<open>merge_slices\<close> returns for the parent slice \<open>s1\<close> and
  the subscript \<open>s2\<close> composes them: slicing any list of sample indices with the merged
  slice is slicing it with \<open>s1\<close> and the result with \<open>s2\<close>.\<close>

definition composes :: "(pyslice \<Rightarrow> pyslice \<Rightarrow> pyslice) \<Rightarrow> pyslice \<Rightarrow> pyslice \<Rightarrow> bool" where
  "composes merge_slices s1 s2 =
     (\<forall>xs :: nat list.
        py_getslice xs (merge_slices s1 s2) =
          (case py_getslice xs s1 of Inl e \<Rightarrow> Inl e | Inr ys \<Rightarrow> py_getslice ys s2))"

text \<open>A merge that is right for an unsliced parent, for the worked examples.\<close>

definition example_merge :: "pyslice \<Rightarrow> pyslice \<Rightarrow> pyslice" where
  "example_merge s1 s2 = (if s1 = slice_None then s2 else s1)"

definition example_tensor :: tensor where
  "example_tensor = \<lparr>t_key = ''tensor'', t_slice = slice_None, num_samples = 2, t_shape = [3]\<rparr>"

section \<open>The LRU cache tier\<close>

text \<open>
  Modelled from the spec: the LRU cache tier of spec section 4.5. Its code
  (\<open>hub.core.storage\<close>, \<open>hub.util.cache_chain\<close>) is not among the sources; only its test
  is. A tier wraps a fast provider \<open>cache_storage\<close> in front of \<open>next_storage\<close> and
  enforces the byte budget \<open>cache_size\<close> on the former. \<open>lru_sizes\<close> maps the cached keys to
  their byte lengths, most recently used first; \<open>cache_used\<close> is the tier's byte count;
  \<open>dirty_keys\<close> are the cached keys not yet written to \<open>next_storage\<close>.
\<close>

record lru_cache =
  cache_storage :: "string \<rightharpoonup> bytes"
  next_storage :: "string \<rightharpoonup> bytes"
  cache_size :: nat
  lru_sizes :: "(string \<times> nat) list"
  dirty_keys :: "string set"
  cache_used :: nat

definition new_lru_cache :: "nat \<Rightarrow> lru_cache" where
  "new_lru_cache budget =
     \<lparr>cache_storage = Map.empty, next_storage = Map.empty, cache_size = budget,
      lru_sizes = [], dirty_keys = {}, cache_used = 0\<rparr>"

text \<open>Modelled from the spec: eviction picks the least-recently-used key; if it is dirty
  its bytes are written to \<open>next_storage\<close> and it leaves \<open>dirty_keys\<close>; it is deleted from the
  cache and from \<open>lru_sizes\<close>.\<close>

definition pop_from_cache :: "lru_cache \<Rightarrow> lru_cache" where
  "pop_from_cache c =
     (case rev (lru_sizes c) of
        [] \<Rightarrow> c
      | (k, s) # rest \<Rightarrow>
          c\<lparr>next_storage :=
               (if k \<in> dirty_keys c
                then (case cache_storage c k of
                        Some v \<Rightarrow> (next_storage c)(k \<mapsto> v)
                      | None \<Rightarrow> next_storage c)
                else next_storage c),
            dirty_keys := dirty_keys c - {k},
            cache_storage := (cache_storage c)(k := None),
            lru_sizes := butlast (lru_sizes c),
            cache_used := cache_used c - s\<rparr>)"

text \<open>Modelled from the spec: entries are evicted until the incoming payload fits in the
  budget; a payload larger than the budget first evicts everything.\<close>

function free_up_space :: "nat \<Rightarrow> lru_cache \<Rightarrow> lru_cache" where
  "free_up_space extra c =
     (if lru_sizes c \<noteq> [] \<and> cache_size c < cache_used c + extra
      then free_up_space extra (pop_from_cache c)
      else c)"
  by pat_completeness auto
termination
proof (relation "measure (\<lambda>(extra, c). length (lru_sizes c))")
  show "wf (measure (\<lambda>(extra, c). length (lru_sizes c)))" by simp
next
  fix extra :: nat and c :: lru_cache
  assume "lru_sizes c \<noteq> [] \<and> cache_size c < cache_used c + extra"
  then have "lru_sizes c \<noteq> []" by simp
  then have "rev (lru_sizes c) \<noteq> []" by simp
  then obtain k s rest where "rev (lru_sizes c) = (k, s) # rest"
    by (cases "rev (lru_sizes c)") auto
  then have "length (lru_sizes (pop_from_cache c)) < length (lru_sizes c)"
    using \<open>lru_sizes c \<noteq> []\<close> by (simp add: pop_from_cache_def)
  then show "((extra, pop_from_cache c), (extra, c)) \<in> measure (\<lambda>(extra, c). length (lru_sizes c))"
    by simp
qed

declare free_up_space.simps [simp del]

text \<open>Modelled from the spec: a payload is stored after room was made for it, and its key
  becomes the most recently used.\<close>

definition insert_in_cache :: "lru_cache \<Rightarrow> string \<Rightarrow> bytes \<Rightarrow> lru_cache" where
  "insert_in_cache c k v =
     (let c1 = free_up_space (length v) c
      in c1\<lparr>cache_storage := (cache_storage c1)(k \<mapsto> v),
             lru_sizes := (k, length v) # lru_sizes c1,
             cache_used := cache_used c1 + length v\<rparr>)"

text \<open>The entry of a key leaves \<open>lru_sizes\<close> and its size leaves the byte count.\<close>

definition forget_key :: "lru_cache \<Rightarrow> string \<Rightarrow> lru_cache" where
  "forget_key c k =
     (case map_of (lru_sizes c) k of
        None \<Rightarrow> c
      | Some s \<Rightarrow>
          c\<lparr>lru_sizes := filter (\<lambda>p. fst p \<noteq> k) (lru_sizes c),
            cache_used := cache_used c - s\<rparr>)"

text \<open>Modelled from the spec: \<open>get(k)\<close>. A cached key is read from the cache and marked most
  recently used; otherwise the blob is read from \<open>next_storage\<close> and inserted clean;
  absent in both is \<open>NotFound\<close> (\<open>KeyError\<close>).\<close>

definition lru_get :: "lru_cache \<Rightarrow> string \<Rightarrow> (py_error + bytes) \<times> lru_cache" where
  "lru_get c k =
     (case map_of (lru_sizes c) k of
        Some s \<Rightarrow>
          (case cache_storage c k of
             None \<Rightarrow> (Inl KeyError, c)
           | Some v \<Rightarrow>
               (Inr v, c\<lparr>lru_sizes := (k, s) # filter (\<lambda>p. fst p \<noteq> k) (lru_sizes c)\<rparr>))
      | None \<Rightarrow>
          (case next_storage c k of
             None \<Rightarrow> (Inl KeyError, c)
           | Some v \<Rightarrow> (Inr v, insert_in_cache c k v)))"

text \<open>Modelled from the spec: \<open>put(k, v)\<close> inserts or replaces, updates the byte count, marks
  the key most recently used and dirty.\<close>

definition lru_put :: "lru_cache \<Rightarrow> string \<Rightarrow> bytes \<Rightarrow> lru_cache" where
  "lru_put c k v =
     (let c1 = insert_in_cache (forget_key c k) k v
      in c1\<lparr>dirty_keys := insert k (dirty_keys c1)\<rparr>)"

text \<open>Modelled from the spec: \<open>delete(k)\<close> removes the key from the cache if present and
  from \<open>next_storage\<close> if present there; \<open>NotFound\<close> only if absent in both.\<close>

definition lru_delete :: "lru_cache \<Rightarrow> string \<Rightarrow> (py_error + unit) \<times> lru_cache" where
  "lru_delete c k =
     (if map_of (lru_sizes c) k = None \<and> next_storage c k = None then (Inl KeyError, c)
      else
        (Inr (),
         (forget_key c k)\<lparr>cache_storage := (cache_storage c)(k := None),
                           dirty_keys := dirty_keys c - {k},
                           next_storage := (next_storage c)(k := None)\<rparr>))"

text \<open>Modelled from the spec: \<open>flush()\<close> writes the cache bytes of every dirty key to
  \<open>next_storage\<close> and clears \<open>dirty_keys\<close>, not the cache.\<close>

definition lru_flush :: "lru_cache \<Rightarrow> lru_cache" where
  "lru_flush c =
     c\<lparr>next_storage :=
         (\<lambda>k. if k \<in> dirty_keys c \<and> cache_storage c k \<noteq> None then cache_storage c k
              else next_storage c k),
       dirty_keys := {}\<rparr>"

text \<open>The budget invariant: the keys of \<open>lru_sizes\<close> are distinct, \<open>cache_used\<close> is the sum of
  its values, and \<open>cache_used\<close> is within the budget unless the tier holds a single entry
  that alone is larger than the budget.\<close>

definition lru_inv :: "lru_cache \<Rightarrow> bool" where
  "lru_inv c =
     (distinct (map fst (lru_sizes c))
      \<and> cache_used c = sum_list (map snd (lru_sizes c))
      \<and> (cache_used c \<le> cache_size c
         \<or> (length (lru_sizes c) = 1 \<and> cache_size c < snd (hd (lru_sizes c)))))"

text \<open>Scenario S4 of the spec scaled from MiB to bytes: a tier with a budget of 4 bytes
  receives three blobs of 2 bytes under the keys \<open>f1\<close>, \<open>f2\<close>, \<open>f3\<close>, in this order.\<close>

definition example_tier :: lru_cache where
  "example_tier =
     lru_put (lru_put (lru_put (new_lru_cache 4) ''f1'' [0, 0]) ''f2'' [0, 0]) ''f3'' [0, 0]"

section \<open>Lemmas about keys and the chunk splitter\<close>

lemma get_chunk_key_eq:
  "well_named name \<Longrightarrow> get_chunk_key key name = chunks_dir key @ ''chunks/'' @ name"
  unfolding get_chunk_key_def well_named_def chunks_dir_def CHUNKS_FOLDER_def
  by (cases name) simp_all

lemma get_meta_key_eq: "get_meta_key key = chunks_dir key @ ''meta.json''"
  unfolding get_meta_key_def chunks_dir_def META_FILENAME_def by simp

lemma get_index_map_key_eq: "get_index_map_key key = chunks_dir key @ ''index_map.json''"
  unfolding get_index_map_key_def chunks_dir_def INDEX_MAP_FILENAME_def by simp

lemma reader_chunk_key: "os_path_join key [''chunks'', name] = get_chunk_key key name"
  by (simp add: get_chunk_key_def CHUNKS_FOLDER_def)

lemma chunk_key_inj:
  "well_named n \<Longrightarrow> well_named n' \<Longrightarrow> (get_chunk_key key n = get_chunk_key key n') = (n = n')"
  by (simp add: get_chunk_key_eq)

lemma chunk_key_not_meta: "well_named n \<Longrightarrow> get_chunk_key key n \<noteq> get_meta_key key"
  by (simp add: get_chunk_key_eq get_meta_key_eq)

lemma chunk_key_not_index: "well_named n \<Longrightarrow> get_chunk_key key n \<noteq> get_index_map_key key"
  by (simp add: get_chunk_key_eq get_index_map_key_eq)

lemma meta_key_not_index: "get_meta_key key \<noteq> get_index_map_key key"
  by (simp add: get_meta_key_eq get_index_map_key_eq)

lemma chunk_slices_Nil [simp]: "chunk_slices n [] = []"
  by (subst chunk_slices.simps) simp

lemma chunk_slices_Cons:
  "0 < n \<Longrightarrow> chunk_slices n (x # xs) = take n (x # xs) # chunk_slices n (drop n (x # xs))"
  by (subst chunk_slices.simps) simp

lemma chunk_slices_step:
  "0 < n \<Longrightarrow> b \<noteq> [] \<Longrightarrow> chunk_slices n b = take n b # chunk_slices n (drop n b)"
  by (subst chunk_slices.simps) simp

lemma chunk_slices_eq_Nil: "0 < n \<Longrightarrow> (chunk_slices n b = []) = (b = [])"
  by (cases b) (simp_all add: chunk_slices_Cons)

lemma concat_chunk_slices: "0 < n \<Longrightarrow> concat (chunk_slices n b) = b"
proof (induction n b rule: chunk_slices.induct)
  case (1 n b)
  show ?case
  proof (cases "b = []")
    case True
    then show ?thesis by simp
  next
    case False
    with 1 have "concat (chunk_slices n (drop n b)) = drop n b" by simp
    moreover have "chunk_slices n b = take n b # chunk_slices n (drop n b)"
      using False 1(2) by (rule chunk_slices_step[rotated])
    ultimately show ?thesis by simp
  qed
qed

lemma chunk_slices_lengths:
  "0 < n \<Longrightarrow> c \<in> set (chunk_slices n b) \<Longrightarrow> 0 < length c \<and> length c \<le> n"
proof (induction n b rule: chunk_slices.induct)
  case (1 n b)
  show ?case
  proof (cases "b = []")
    case True
    with 1(3) show ?thesis by simp
  next
    case False
    have eq: "chunk_slices n b = take n b # chunk_slices n (drop n b)"
      using False 1(2) by (rule chunk_slices_step[rotated])
    from 1(3) eq have "c = take n b \<or> c \<in> set (chunk_slices n (drop n b))" by simp
    then show ?thesis
    proof
      assume "c = take n b"
      with False 1(2) show ?thesis by simp
    next
      assume "c \<in> set (chunk_slices n (drop n b))"
      with 1(1) False 1(2) show ?thesis by simp
    qed
  qed
qed

lemma chunk_slices_butlast_full:
  "0 < n \<Longrightarrow> c \<in> set (butlast (chunk_slices n b)) \<Longrightarrow> length c = n"
proof (induction n b rule: chunk_slices.induct)
  case (1 n b)
  show ?case
  proof (cases "b = []")
    case True
    with 1(3) show ?thesis by simp
  next
    case False
    have eq: "chunk_slices n b = take n b # chunk_slices n (drop n b)"
      using False 1(2) by (rule chunk_slices_step[rotated])
    show ?thesis
    proof (cases "drop n b = []")
      case True
      with 1(3) eq show ?thesis by simp
    next
      case d: False
      then have ne: "chunk_slices n (drop n b) \<noteq> []"
        using 1(2) by (simp add: chunk_slices_eq_Nil)
      from 1(3) eq ne have "c = take n b \<or> c \<in> set (butlast (chunk_slices n (drop n b)))"
        by simp
      then show ?thesis
      proof
        assume "c = take n b"
        with d show ?thesis by simp
      next
        assume "c \<in> set (butlast (chunk_slices n (drop n b)))"
        with 1(1) False 1(2) show ?thesis by simp
      qed
    qed
  qed
qed

lemma names_ok_key_inj:
  "names_ok uuid \<Longrightarrow> (get_chunk_key key (uuid i) = get_chunk_key key (uuid j)) = (i = j)"
  unfolding names_ok_def by (auto simp: chunk_key_inj dest: injD)

lemma store_chunks_other:
  "names_ok uuid \<Longrightarrow> \<forall>j. clock \<le> j \<and> j < clock + length sl \<longrightarrow> k \<noteq> get_chunk_key key (uuid j)
   \<Longrightarrow> store_chunks uuid key clock sl st k = st k"
proof (induction sl arbitrary: clock st)
  case Nil
  then show ?case by simp
next
  case (Cons c sl)
  have "store_chunks uuid key (Suc clock) sl (st(get_chunk_key key (uuid clock) \<mapsto> Chunk c)) k
        = (st(get_chunk_key key (uuid clock) \<mapsto> Chunk c)) k"
    using Cons.prems by (intro Cons.IH) auto
  moreover have "k \<noteq> get_chunk_key key (uuid clock)" using Cons.prems(2) by auto
  ultimately show ?case by simp
qed

lemma store_chunks_at:
  "names_ok uuid \<Longrightarrow> j < length sl
   \<Longrightarrow> store_chunks uuid key clock sl st (get_chunk_key key (uuid (clock + j))) = Some (Chunk (sl ! j))"
proof (induction sl arbitrary: clock st j)
  case Nil
  then show ?case by simp
next
  case (Cons c sl)
  show ?case
  proof (cases j)
    case 0
    have "store_chunks uuid key (Suc clock) sl (st(get_chunk_key key (uuid clock) \<mapsto> Chunk c))
            (get_chunk_key key (uuid clock))
          = (st(get_chunk_key key (uuid clock) \<mapsto> Chunk c)) (get_chunk_key key (uuid clock))"
      using Cons.prems(1) by (intro store_chunks_other) (auto simp: names_ok_key_inj)
    with 0 show ?thesis by simp
  next
    case (Suc j')
    with Cons.prems have "j' < length sl" by simp
    from Cons.IH[OF Cons.prems(1) this, of "Suc clock"] Suc show ?thesis by simp
  qed
qed

lemma upt_shift: "[c..<c + Suc n] = c # [Suc c..<Suc c + n]"
  by (simp add: upt_conv_Cons del: upt_Suc)

lemma write_chunks_fresh:
  "\<not> extend_last_chunk v \<Longrightarrow>
   \<exists>v'. write_chunks uuid key cs im sl v = Inr v'
      \<and> v_clock v' = v_clock v + length sl
      \<and> v_chunk_names v' = v_chunk_names v @ map uuid [v_clock v..<v_clock v + length sl]
      \<and> v_start_byte v' = v_start_byte v
      \<and> v_end_byte v' = (if sl = [] then v_end_byte v else Some (length (last sl)))
      \<and> v_storage v' = store_chunks uuid key (v_clock v) sl (v_storage v)"
proof (induction sl arbitrary: v)
  case Nil
  then show ?case by simp
next
  case (Cons c sl)
  let ?v1 = "v\<lparr>v_clock := Suc (v_clock v),
                  v_end_byte := Some (length c),
                  v_storage := (v_storage v)(get_chunk_key key (uuid (v_clock v)) \<mapsto> Chunk c),
                  v_chunk_names := v_chunk_names v @ [uuid (v_clock v)],
                  last_chunk := c,
                  last_chunk_name := uuid (v_clock v)\<rparr>"
  have step: "write_chunk uuid key cs im c v = Inr ?v1"
    using Cons.prems by (simp add: write_chunk_def Let_def)
  have "\<not> extend_last_chunk ?v1" using Cons.prems by simp
  from Cons.IH[OF this] obtain v' where
    v': "write_chunks uuid key cs im sl ?v1 = Inr v'"
      "v_clock v' = v_clock ?v1 + length sl"
      "v_chunk_names v' = v_chunk_names ?v1 @ map uuid [v_clock ?v1..<v_clock ?v1 + length sl]"
      "v_start_byte v' = v_start_byte ?v1"
      "v_end_byte v' = (if sl = [] then v_end_byte ?v1 else Some (length (last sl)))"
      "v_storage v' = store_chunks uuid key (v_clock ?v1) sl (v_storage ?v1)"
    by blast
  have "write_chunks uuid key cs im (c # sl) v = Inr v'" using step v'(1) by simp
  moreover have "v_clock v' = v_clock v + length (c # sl)" using v'(2) by simp
  moreover have "v_chunk_names v' = v_chunk_names v @ map uuid [v_clock v..<v_clock v + length (c # sl)]"
    using v'(3) by (simp add: upt_conv_Cons del: upt_Suc)
  moreover have "v_start_byte v' = v_start_byte v" using v'(4) by simp
  moreover have "v_end_byte v' = (if c # sl = [] then v_end_byte v else Some (length (last (c # sl))))"
    using v'(5) by simp
  moreover have "v_storage v' = store_chunks uuid key (v_clock v) (c # sl) (v_storage v)"
    using v'(6) by simp
  ultimately show ?case by blast
qed

lemma write_bytes_empty: "write_bytes uuid [] key cs w im \<noteq> Inr r"
  by (simp add: write_bytes_def generate_chunks_def Let_def split: sum.splits prod.splits)

lemma write_bytes_fresh:
  assumes last: "get_last_chunk key im st = Inr (m, old)"
    and full: "im = [] \<or> cs \<le> length old"
    and b: "b \<noteq> []" and cs: "0 < cs"
  shows "write_bytes uuid b key cs (st, clk) im =
           Inr ((map uuid [clk..<clk + length (chunk_slices cs b)], 0,
                 length (last (chunk_slices cs b))),
                (store_chunks uuid key clk (chunk_slices cs b) st,
                 clk + length (chunk_slices cs b)))"
proof -
  let ?sl = "chunk_slices cs b"
  let ?v = "\<lparr>extend_last_chunk = False, last_chunk = old, last_chunk_name = m,
             v_chunk_names = [], v_start_byte = 0, v_end_byte = None,
             v_storage = st, v_clock = clk\<rparr>"
  have ext: "(0 < length im \<and> length old < cs) = False" using full by auto
  have gen: "generate_chunks b cs 0 = ?sl" using b by (simp add: generate_chunks_def)
  have ne: "?sl \<noteq> []" using b cs by (simp add: chunk_slices_eq_Nil)
  have "\<not> extend_last_chunk ?v" by simp
  from write_chunks_fresh[OF this, of uuid key cs im ?sl] obtain v' where
    v': "write_chunks uuid key cs im ?sl ?v = Inr v'"
      "v_clock v' = clk + length ?sl"
      "v_chunk_names v' = map uuid [clk..<clk + length ?sl]"
      "v_start_byte v' = 0"
      "v_end_byte v' = Some (length (last ?sl))"
      "v_storage v' = store_chunks uuid key clk ?sl st"
    using ne by auto
  show ?thesis
    unfolding write_bytes_def
    by (simp add: last ext gen v' Let_def del: length_greater_0_conv write_chunks.simps)
qed

lemma write_bytes_extend:
  assumes last: "get_last_chunk key im st = Inr (m, old)"
    and im: "im \<noteq> []" and short: "length old < cs"
    and b: "b \<noteq> []"
  shows "write_bytes uuid b key cs (st, clk) im =
           Inr ((m # map uuid [clk..<clk + length (chunk_slices cs (drop (cs - length old) b))],
                 end_byte (last im),
                 (if chunk_slices cs (drop (cs - length old) b) = []
                  then length old + length (take (cs - length old) b)
                  else length (last (chunk_slices cs (drop (cs - length old) b))))),
                (store_chunks uuid key clk (chunk_slices cs (drop (cs - length old) b))
                   (st(get_chunk_key key m \<mapsto> Chunk (old @ take (cs - length old) b))),
                 clk + length (chunk_slices cs (drop (cs - length old) b))))"
proof -
  let ?bllc = "cs - length old"
  let ?first = "take ?bllc b"
  let ?rest = "chunk_slices cs (drop ?bllc b)"
  let ?v = "\<lparr>extend_last_chunk = True, last_chunk = old, last_chunk_name = m,
             v_chunk_names = [], v_start_byte = 0, v_end_byte = None,
             v_storage = st, v_clock = clk\<rparr>"
  let ?v1 = "\<lparr>extend_last_chunk = \<not> (cs \<le> length (old @ ?first)), last_chunk = old @ ?first,
              last_chunk_name = m,
              v_chunk_names = [m], v_start_byte = end_byte (last im),
              v_end_byte = Some (length (old @ ?first)),
              v_storage = st(get_chunk_key key m \<mapsto> Chunk (old @ ?first)), v_clock = clk\<rparr>"
  have cs: "0 < cs" using short by simp
  have ext: "(0 < length im \<and> length old < cs) = True" using im short by simp
  have gen: "generate_chunks b cs ?bllc = ?first # ?rest"
    using b short by (simp add: generate_chunks_def)
  have step: "write_chunk uuid key cs im ?first ?v = Inr ?v1"
    using im by (simp add: write_chunk_def Let_def)
  have "\<exists>v'. write_chunks uuid key cs im ?rest ?v1 = Inr v'
      \<and> v_clock v' = clk + length ?rest
      \<and> v_chunk_names v' = m # map uuid [clk..<clk + length ?rest]
      \<and> v_start_byte v' = end_byte (last im)
      \<and> v_end_byte v' = (if ?rest = [] then Some (length (old @ ?first))
                          else Some (length (last ?rest)))
      \<and> v_storage v' = store_chunks uuid key clk ?rest
                          (st(get_chunk_key key m \<mapsto> Chunk (old @ ?first)))"
  proof (cases "?rest = []")
    case True
    then show ?thesis by simp
  next
    case False
    then have "drop ?bllc b \<noteq> []" by auto
    then have "?bllc < length b" by simp
    then have "length (old @ ?first) = cs" using short by simp
    then have "\<not> extend_last_chunk ?v1" by simp
    from write_chunks_fresh[OF this, of uuid key cs im ?rest] show ?thesis by auto
  qed
  then obtain v' where
    v': "write_chunks uuid key cs im ?rest ?v1 = Inr v'"
      "v_clock v' = clk + length ?rest"
      "v_chunk_names v' = m # map uuid [clk..<clk + length ?rest]"
      "v_start_byte v' = end_byte (last im)"
      "v_end_byte v' = (if ?rest = [] then Some (length (old @ ?first))
                          else Some (length (last ?rest)))"
      "v_storage v' = store_chunks uuid key clk ?rest
                          (st(get_chunk_key key m \<mapsto> Chunk (old @ ?first)))"
    by blast
  have loop: "write_chunks uuid key cs im (?first # ?rest) ?v = Inr v'"
    using step v'(1) by simp
  show ?thesis
    unfolding write_bytes_def
    by (simp add: last ext gen loop v' Let_def del: length_greater_0_conv write_chunks.simps)
qed

lemma chunk_len_Some:
  "(chunk_len key st n = Some l) = (\<exists>c. st (get_chunk_key key n) = Some (Chunk c) \<and> length c = l)"
  by (auto simp: chunk_len_def split: option.splits blob.splits)

lemma fetch_chunks_Cons:
  "fetch_chunks key st (n # ns) =
     (case st (get_chunk_key key n) of
        Some (Chunk c) \<Rightarrow>
          (case fetch_chunks key st ns of Inl e \<Rightarrow> Inl e | Inr chunks \<Rightarrow> Inr (c # chunks))
      | Some _ \<Rightarrow> Inl TypeError
      | None \<Rightarrow> Inl KeyError)"
  unfolding fetch_chunks.simps reader_chunk_key read_chunk_def
  by (simp split: option.splits blob.splits)

declare fetch_chunks.simps(2) [simp del]

lemma fetch_chunks_cong:
  "(\<And>n. n \<in> set ns \<Longrightarrow> st' (get_chunk_key key n) = st (get_chunk_key key n))
   \<Longrightarrow> fetch_chunks key st' ns = fetch_chunks key st ns"
  by (induction ns) (simp_all add: fetch_chunks_Cons split: option.splits blob.splits)

lemma fetch_chunks_append:
  "fetch_chunks key st (xs @ ys) =
     (case fetch_chunks key st xs of
        Inl e \<Rightarrow> Inl e
      | Inr a \<Rightarrow> (case fetch_chunks key st ys of Inl e \<Rightarrow> Inl e | Inr b \<Rightarrow> Inr (a @ b)))"
  by (induction xs) (simp_all add: fetch_chunks_Cons split: sum.splits option.splits blob.splits)

lemma fetch_chunks_snoc_Inr:
  "(fetch_chunks key st (pre @ [l]) = Inr chunks) =
     (\<exists>cpre c. fetch_chunks key st pre = Inr cpre \<and> st (get_chunk_key key l) = Some (Chunk c)
              \<and> chunks = cpre @ [c])"
  by (auto simp: fetch_chunks_append fetch_chunks_Cons split: sum.splits option.splits blob.splits)

lemma join_chunks_snoc:
  "pre \<noteq> [] \<Longrightarrow> join_chunks (pre @ [c]) s e = drop s (hd pre) @ concat (tl pre) @ take e c"
proof (cases pre)
  case Nil
  assume "pre \<noteq> []"
  with Nil show ?thesis by simp
next
  case (Cons a list)
  then show ?thesis by (cases list) simp_all
qed

lemma join_chunks_grow:
  "e \<le> length c \<Longrightarrow> join_chunks (pre @ [c @ x]) s e = join_chunks (pre @ [c]) s e"
  by (cases "pre = []") (simp_all add: join_chunks_snoc)

lemma covered_length_snoc:
  "pre \<noteq> [] \<Longrightarrow> covered_length (pre @ [c]) s e
     = (length (hd pre) - s) + sum_list (map length (tl pre)) + e"
proof (cases pre)
  case Nil
  assume "pre \<noteq> []"
  with Nil show ?thesis by simp
next
  case (Cons a list)
  then show ?thesis by (cases list) simp_all
qed

lemma length_join_chunks_snoc:
  "e \<le> length c \<Longrightarrow> length (join_chunks (pre @ [c]) s e) = covered_length (pre @ [c]) s e"
  by (cases "pre = []") (simp_all add: join_chunks_snoc covered_length_snoc length_concat)

lemma entry_ok_iff:
  "entry_ok key cs st e b =
     (\<exists>pre l cpre c.
        chunk_names e = pre @ [l]
        \<and> (\<forall>n \<in> set pre. chunk_len key st n = Some cs)
        \<and> fetch_chunks key st pre = Inr cpre
        \<and> st (get_chunk_key key l) = Some (Chunk c)
        \<and> end_byte e \<le> length c
        \<and> join_chunks (cpre @ [c]) (start_byte e) (end_byte e) = b)"
proof
  assume ok: "entry_ok key cs st e b"
  let ?pre = "butlast (chunk_names e)"
  let ?l = "last (chunk_names e)"
  have ne: "chunk_names e \<noteq> []" using ok by (simp add: entry_ok_def)
  then have split: "chunk_names e = ?pre @ [?l]" by simp
  have full: "\<forall>n \<in> set ?pre. chunk_len key st n = Some cs"
    using ok by (simp add: entry_ok_def list_all_iff)
  obtain c where c: "st (get_chunk_key key ?l) = Some (Chunk c)" and e: "end_byte e \<le> length c"
    using ok by (auto simp: entry_ok_def chunk_len_def split: option.splits blob.splits)
  obtain chunks where f: "fetch_chunks key st (?pre @ [?l]) = Inr chunks"
    and j: "join_chunks chunks (start_byte e) (end_byte e) = b"
    using ok split by (auto simp: entry_ok_def sample_bytes_def split: sum.splits)
  from f c obtain cpre where "fetch_chunks key st ?pre = Inr cpre" "chunks = cpre @ [c]"
    by (auto simp: fetch_chunks_snoc_Inr)
  with split full c e j show "\<exists>pre l cpre c.
        chunk_names e = pre @ [l]
        \<and> (\<forall>n \<in> set pre. chunk_len key st n = Some cs)
        \<and> fetch_chunks key st pre = Inr cpre
        \<and> st (get_chunk_key key l) = Some (Chunk c)
        \<and> end_byte e \<le> length c
        \<and> join_chunks (cpre @ [c]) (start_byte e) (end_byte e) = b"
    by blast
next
  assume "\<exists>pre l cpre c.
        chunk_names e = pre @ [l]
        \<and> (\<forall>n \<in> set pre. chunk_len key st n = Some cs)
        \<and> fetch_chunks key st pre = Inr cpre
        \<and> st (get_chunk_key key l) = Some (Chunk c)
        \<and> end_byte e \<le> length c
        \<and> join_chunks (cpre @ [c]) (start_byte e) (end_byte e) = b"
  then obtain pre l cpre c where
    n: "chunk_names e = pre @ [l]" and full: "\<forall>n \<in> set pre. chunk_len key st n = Some cs"
    and f: "fetch_chunks key st pre = Inr cpre" and c: "st (get_chunk_key key l) = Some (Chunk c)"
    and e: "end_byte e \<le> length c"
    and j: "join_chunks (cpre @ [c]) (start_byte e) (end_byte e) = b"
    by blast
  have "fetch_chunks key st (pre @ [l]) = Inr (cpre @ [c])"
    using f c by (simp add: fetch_chunks_snoc_Inr)
  then have "sample_bytes key st e = Inr b" using n j by (simp add: sample_bytes_def)
  moreover have "chunk_len key st l = Some (length c)" using c by (simp add: chunk_len_def)
  ultimately show "entry_ok key cs st e b"
    using n full e by (simp add: entry_ok_def list_all_iff)
qed

lemma entry_ok_cong:
  assumes same: "\<And>n. n \<in> set (chunk_names e) \<Longrightarrow> st' (get_chunk_key key n) = st (get_chunk_key key n)"
    and ok: "entry_ok key cs st e b"
  shows "entry_ok key cs st' e b"
proof -
  from ok obtain pre l cpre c where
    n: "chunk_names e = pre @ [l]" and full: "\<forall>n \<in> set pre. chunk_len key st n = Some cs"
    and f: "fetch_chunks key st pre = Inr cpre" and c: "st (get_chunk_key key l) = Some (Chunk c)"
    and e: "end_byte e \<le> length c"
    and j: "join_chunks (cpre @ [c]) (start_byte e) (end_byte e) = b"
    unfolding entry_ok_iff by blast
  have pre: "\<And>x. x \<in> set pre \<Longrightarrow> st' (get_chunk_key key x) = st (get_chunk_key key x)"
    using same n by simp
  have "\<forall>n \<in> set pre. chunk_len key st' n = Some cs"
    using full pre by (simp add: chunk_len_def)
  moreover have "fetch_chunks key st' pre = Inr cpre"
    using f fetch_chunks_cong[of pre st' key st] pre by simp
  moreover have "st' (get_chunk_key key l) = Some (Chunk c)" using c same n by simp
  ultimately show ?thesis using n e j unfolding entry_ok_iff by blast
qed

lemma entry_ok_extend:
  assumes ok: "entry_ok key cs st e b"
    and old: "st (get_chunk_key key m) = Some (Chunk old)"
    and short: "length old < cs"
  shows "entry_ok key cs (st(get_chunk_key key m \<mapsto> Chunk (old @ x))) e b"
proof -
  let ?st' = "st(get_chunk_key key m \<mapsto> Chunk (old @ x))"
  from ok obtain pre l cpre c where
    n: "chunk_names e = pre @ [l]" and full: "\<forall>n \<in> set pre. chunk_len key st n = Some cs"
    and f: "fetch_chunks key st pre = Inr cpre" and c: "st (get_chunk_key key l) = Some (Chunk c)"
    and e: "end_byte e \<le> length c"
    and j: "join_chunks (cpre @ [c]) (start_byte e) (end_byte e) = b"
    unfolding entry_ok_iff by blast
  have pre_other: "\<And>y. y \<in> set pre \<Longrightarrow> get_chunk_key key y \<noteq> get_chunk_key key m"
  proof
    fix y assume y: "y \<in> set pre" and eq: "get_chunk_key key y = get_chunk_key key m"
    from full y have "chunk_len key st y = Some cs" by simp
    with eq old short show False by (simp add: chunk_len_def)
  qed
  have pre_same: "\<And>y. y \<in> set pre \<Longrightarrow> ?st' (get_chunk_key key y) = st (get_chunk_key key y)"
    using pre_other by simp
  have a: "\<forall>n \<in> set pre. chunk_len key ?st' n = Some cs"
    using full pre_same by (simp add: chunk_len_def)
  have f': "fetch_chunks key ?st' pre = Inr cpre"
    using f fetch_chunks_cong[of pre ?st' key st] pre_same by simp
  show ?thesis
  proof (cases "get_chunk_key key l = get_chunk_key key m")
    case True
    with c old have co: "c = old" by simp
    have l': "?st' (get_chunk_key key l) = Some (Chunk (c @ x))" using True co by simp
    have e': "end_byte e \<le> length (c @ x)" using e by simp
    have j': "join_chunks (cpre @ [c @ x]) (start_byte e) (end_byte e) = b"
      using j e by (simp add: join_chunks_grow)
    from n a f' l' e' j' show ?thesis unfolding entry_ok_iff by blast
  next
    case False
    then have l': "?st' (get_chunk_key key l) = Some (Chunk c)" using c by simp
    from n a f' l' e j show ?thesis unfolding entry_ok_iff by blast
  qed
qed

lemma entry_ok_covered:
  assumes ok: "entry_ok key cs st e b"
  shows "covered_bytes key st e = Some (length b)"
proof -
  from ok obtain pre l cpre c where
    n: "chunk_names e = pre @ [l]"
    and f: "fetch_chunks key st pre = Inr cpre" and c: "st (get_chunk_key key l) = Some (Chunk c)"
    and e: "end_byte e \<le> length c"
    and j: "join_chunks (cpre @ [c]) (start_byte e) (end_byte e) = b"
    unfolding entry_ok_iff by blast
  have "fetch_chunks key st (chunk_names e) = Inr (cpre @ [c])"
    using n f c by (simp add: fetch_chunks_snoc_Inr)
  then show ?thesis
    using j e length_join_chunks_snoc[of "end_byte e" c cpre "start_byte e"]
    by (simp add: covered_bytes_def)
qed

lemma entry_ok_sample_bytes: "entry_ok key cs st e b \<Longrightarrow> sample_bytes key st e = Inr b"
  by (simp add: entry_ok_def)

lemma fetch_chunks_stored:
  "(\<And>i. i < length sl \<Longrightarrow> st (get_chunk_key key (uuid (clk + i))) = Some (Chunk (sl ! i)))
   \<Longrightarrow> fetch_chunks key st (map uuid [clk..<clk + length sl]) = Inr sl"
proof (induction sl arbitrary: clk)
  case Nil
  then show ?case by simp
next
  case (Cons c sl)
  have hd: "st (get_chunk_key key (uuid clk)) = Some (Chunk c)"
    using Cons.prems[of 0] by simp
  have "\<And>i. i < length sl \<Longrightarrow> st (get_chunk_key key (uuid (Suc clk + i))) = Some (Chunk (sl ! i))"
    using Cons.prems[of "Suc i" for i] by simp
  from Cons.IH[OF this] have tl: "fetch_chunks key st (map uuid [Suc clk..<Suc clk + length sl]) = Inr sl" .
  have "[clk..<clk + length (c # sl)] = clk # [Suc clk..<Suc clk + length sl]"
    using upt_shift[of clk "length sl"] by simp
  then show ?case using hd tl by (simp add: fetch_chunks_Cons)
qed

lemma join_chunks_all: "sl \<noteq> [] \<Longrightarrow> join_chunks sl 0 (length (last sl)) = concat sl"
proof -
  assume "sl \<noteq> []"
  then obtain pre c where sl: "sl = pre @ [c]" by (metis append_butlast_last_id)
  show ?thesis
  proof (cases "pre = []")
    case True
    with sl show ?thesis by simp
  next
    case False
    then have "concat pre = hd pre @ concat (tl pre)" by (cases pre) simp_all
    with sl False show ?thesis by (simp add: join_chunks_snoc)
  qed
qed

lemma adjacent_snoc:
  assumes adj: "adjacent im"
    and new: "im \<noteq> [] \<Longrightarrow> linked im (last im) e"
  shows "adjacent (im @ [e])"
  unfolding adjacent_def
proof (intro allI impI)
  fix i assume i: "Suc i < length (im @ [e])"
  show "linked (take (Suc i) (im @ [e])) ((im @ [e]) ! i) ((im @ [e]) ! Suc i)"
  proof (cases "Suc i < length im")
    case True
    then show ?thesis using adj by (simp add: adjacent_def nth_append)
  next
    case False
    with i have len: "Suc i = length im" by simp
    then have ne: "im \<noteq> []" by auto
    have "i = length im - 1" using len by simp
    then have "(im @ [e]) ! i = last im" using ne by (simp add: nth_append last_conv_nth)
    moreover have "(im @ [e]) ! Suc i = e" using len by (simp add: nth_append)
    moreover have "take (Suc i) (im @ [e]) = im" using len by simp
    ultimately show ?thesis using new[OF ne] by simp
  qed
qed

lemma writer_inv_fresh:
  assumes inv: "writer_inv uuid key cs c0 st0 st clk im bs"
    and ok: "names_ok uuid" and cs: "0 < cs" and b: "b \<noteq> []"
    and full: "im = [] \<or> chunk_len key st (uuid (clk - 1)) = Some cs"
  shows "writer_inv uuid key cs c0 st0
           (store_chunks uuid key clk (chunk_slices cs b) st)
           (clk + length (chunk_slices cs b))
           (im @ [\<lparr>chunk_names = map uuid [clk..<clk + length (chunk_slices cs b)],
                    start_byte = 0, end_byte = length (last (chunk_slices cs b)),
                    entry_shape = shp\<rparr>])
           (bs @ [b])"
proof -
  let ?sl = "chunk_slices cs b"
  let ?n = "length ?sl"
  let ?st' = "store_chunks uuid key clk ?sl st"
  let ?clk' = "clk + ?n"
  let ?e = "\<lparr>chunk_names = map uuid [clk..<clk + ?n], start_byte = 0,
              end_byte = length (last ?sl), entry_shape = shp\<rparr>"
  let ?K = "\<lambda>j. get_chunk_key key (uuid j)"
  have ne: "?sl \<noteq> []" using b cs by (simp add: chunk_slices_eq_Nil)
  then have n0: "0 < ?n" by simp
  have i1: "c0 \<le> clk" and i2: "list_all2 (entry_ok key cs st) im bs"
    and i3: "\<forall>e \<in> set im. set (chunk_names e) \<subseteq> uuid ` {c0..<clk}"
    and i4: "\<forall>j. c0 \<le> j \<and> j < clk \<longrightarrow>
            (\<exists>l. chunk_len key st (uuid j) = Some l \<and> 0 < l \<and> l \<le> cs
                 \<and> (l < cs \<longrightarrow> Suc j = clk))"
    and i5: "im = [] \<longrightarrow> clk = c0"
    and i6: "im \<noteq> [] \<longrightarrow>
            c0 < clk \<and> last (chunk_names (last im)) = uuid (clk - 1)
            \<and> chunk_len key st (uuid (clk - 1)) = Some (end_byte (last im))"
    and i7: "\<forall>k. (\<forall>j. c0 \<le> j \<and> j < clk \<longrightarrow> k \<noteq> ?K j) \<longrightarrow> st k = st0 k"
    and i8: "adjacent im"
    using inv unfolding writer_inv_def by blast+
  have s1: "\<And>j. j < clk \<Longrightarrow> ?st' (?K j) = st (?K j)"
    using ok by (intro store_chunks_other) (auto simp: names_ok_key_inj)
  have s2: "\<And>i. i < ?n \<Longrightarrow> ?st' (?K (clk + i)) = Some (Chunk (?sl ! i))"
    using ok by (rule store_chunks_at)
  have s3: "\<And>k. (\<forall>j. c0 \<le> j \<and> j < ?clk' \<longrightarrow> k \<noteq> ?K j) \<Longrightarrow> ?st' k = st k"
    using ok i1 by (intro store_chunks_other) auto
  have l1: "\<And>j. j < clk \<Longrightarrow> chunk_len key ?st' (uuid j) = chunk_len key st (uuid j)"
    using s1 by (simp add: chunk_len_def)
  have l2: "\<And>i. i < ?n \<Longrightarrow> chunk_len key ?st' (uuid (clk + i)) = Some (length (?sl ! i))"
    using s2 by (simp add: chunk_len_def)
  have old_full: "\<And>j l. c0 \<le> j \<Longrightarrow> j < clk \<Longrightarrow> chunk_len key st (uuid j) = Some l \<Longrightarrow> l = cs"
  proof -
    fix j l assume j: "c0 \<le> j" "j < clk" and l: "chunk_len key st (uuid j) = Some l"
    from i4 j l have le: "l \<le> cs" and sh: "l < cs \<longrightarrow> Suc j = clk" by auto
    show "l = cs"
    proof (rule ccontr)
      assume "l \<noteq> cs"
      with le sh have last: "Suc j = clk" by simp
      from j i5 have "im \<noteq> []" by auto
      with full have "chunk_len key st (uuid (clk - 1)) = Some cs" by simp
      with last l \<open>l \<noteq> cs\<close> show False by auto
    qed
  qed
  have c1: "c0 \<le> ?clk'" using i1 by simp
  have old_entries: "list_all2 (entry_ok key cs ?st') im bs"
  proof (rule list.rel_mono_strong[OF i2])
    fix e x assume e: "e \<in> set im" and "x \<in> set bs" and eo: "entry_ok key cs st e x"
    show "entry_ok key cs ?st' e x"
    proof (rule entry_ok_cong[OF _ eo])
      fix n assume "n \<in> set (chunk_names e)"
      moreover from i3 e have "set (chunk_names e) \<subseteq> uuid ` {c0..<clk}" by simp
      ultimately have "n \<in> uuid ` {c0..<clk}" by (rule set_mp[rotated])
      then obtain j where "n = uuid j" "j < clk" by auto
      with s1 show "?st' (get_chunk_key key n) = st (get_chunk_key key n)" by simp
    qed
  qed
  obtain p where p: "?n = Suc p" using n0 by (cases ?n) simp_all
  have upt_p: "[clk..<clk + ?n] = [clk..<clk + p] @ [clk + p]" using p by simp
  have last_p: "last ?sl = ?sl ! p" using ne p by (simp add: last_conv_nth)
  have butlast_full: "\<And>i. i < p \<Longrightarrow> length (?sl ! i) = cs"
  proof -
    fix i assume "i < p"
    then have "i < length (butlast ?sl)" using p by simp
    then have "butlast ?sl ! i \<in> set (butlast ?sl)" by (rule nth_mem)
    moreover have "butlast ?sl ! i = ?sl ! i" using \<open>i < length (butlast ?sl)\<close> by (rule nth_butlast)
    ultimately have "?sl ! i \<in> set (butlast ?sl)" by simp
    with cs show "length (?sl ! i) = cs" by (rule chunk_slices_butlast_full)
  qed
  have new_entry: "entry_ok key cs ?st' ?e b"
  proof -
    have names: "chunk_names ?e = map uuid [clk..<clk + p] @ [uuid (clk + p)]"
      using upt_p by simp
    have pre_full: "\<forall>n \<in> set (map uuid [clk..<clk + p]). chunk_len key ?st' n = Some cs"
    proof
      fix n assume "n \<in> set (map uuid [clk..<clk + p])"
      then obtain j where j: "clk \<le> j" "j < clk + p" and n: "n = uuid j" by auto
      define i where "i = j - clk"
      have i1': "i < p" using j unfolding i_def by arith
      have i2': "j = clk + i" using j unfolding i_def by arith
      note i = i1' i2'
      have "i < ?n" using i p by simp
      from l2[OF this] butlast_full[OF i(1)] i n show "chunk_len key ?st' n = Some cs" by simp
    qed
    have fetched: "fetch_chunks key ?st' (map uuid [clk..<clk + ?n]) = Inr ?sl"
      using s2 by (rule fetch_chunks_stored)
    have "p < ?n" using p by simp
    from l2[OF this] have lastc: "chunk_len key ?st' (uuid (clk + p)) = Some (length (last ?sl))"
      using last_p by simp
    have "sample_bytes key ?st' ?e = Inr b"
      using fetched ne cs by (simp add: sample_bytes_def join_chunks_all concat_chunk_slices)
    moreover have "chunk_len key ?st' (last (chunk_names ?e)) = Some (length (last ?sl))"
      using lastc by (simp only: names last_snoc)
    moreover have "list_all (\<lambda>n. chunk_len key ?st' n = Some cs) (butlast (chunk_names ?e))"
      using pre_full by (simp only: names butlast_snoc list_all_iff)
    moreover have "chunk_names ?e \<noteq> []" using ne by simp
    ultimately show ?thesis by (simp add: entry_ok_def)
  qed
  have c2: "list_all2 (entry_ok key cs ?st') (im @ [?e]) (bs @ [b])"
    using old_entries new_entry by (simp add: list_all2_appendI)
  have c3: "\<forall>e \<in> set (im @ [?e]). set (chunk_names e) \<subseteq> uuid ` {c0..<?clk'}"
  proof
    fix e assume "e \<in> set (im @ [?e])"
    then consider "e \<in> set im" | "e = ?e" by auto
    then show "set (chunk_names e) \<subseteq> uuid ` {c0..<?clk'}"
    proof cases
      case 1
      with i3 have "set (chunk_names e) \<subseteq> uuid ` {c0..<clk}" by simp
      then show ?thesis by auto
    next
      case 2
      then show ?thesis using i1 by auto
    qed
  qed
  have c4: "\<forall>j. c0 \<le> j \<and> j < ?clk' \<longrightarrow>
            (\<exists>l. chunk_len key ?st' (uuid j) = Some l \<and> 0 < l \<and> l \<le> cs
                 \<and> (l < cs \<longrightarrow> Suc j = ?clk'))"
  proof (intro allI impI)
    fix j assume j: "c0 \<le> j \<and> j < ?clk'"
    show "\<exists>l. chunk_len key ?st' (uuid j) = Some l \<and> 0 < l \<and> l \<le> cs \<and> (l < cs \<longrightarrow> Suc j = ?clk')"
    proof (cases "j < clk")
      case True
      with i4 j obtain l where l: "chunk_len key st (uuid j) = Some l" "0 < l" by blast
      with old_full[of j l] j True have "l = cs" by simp
      with l l1[OF True] show ?thesis by simp
    next
      case False
      define i where "i = j - clk"
      have i1': "j = clk + i" using False unfolding i_def by arith
      have i2': "i < ?n" using False j unfolding i_def by arith
      note i = i1' i2'
      have mem: "?sl ! i \<in> set ?sl" using i by simp
      have len: "0 < length (?sl ! i) \<and> length (?sl ! i) \<le> cs"
        using cs mem by (rule chunk_slices_lengths)
      have "length (?sl ! i) < cs \<longrightarrow> Suc i = ?n"
      proof (rule impI, rule ccontr)
        assume short: "length (?sl ! i) < cs" and "Suc i \<noteq> ?n"
        with i p have "i < p" by simp
        from butlast_full[OF this] short show False by simp
      qed
      with len l2[of i] i show ?thesis by simp
    qed
  qed
  have c5: "im @ [?e] = [] \<longrightarrow> ?clk' = c0" by simp
  have c6: "im @ [?e] \<noteq> [] \<longrightarrow>
            c0 < ?clk' \<and> last (chunk_names (last (im @ [?e]))) = uuid (?clk' - 1)
            \<and> chunk_len key ?st' (uuid (?clk' - 1)) = Some (end_byte (last (im @ [?e])))"
  proof -
    have k: "?clk' - 1 = clk + p" using p by simp
    have a: "last (map uuid [clk..<clk + ?n]) = uuid (clk + p)" using upt_p by simp
    have "p < ?n" using p by simp
    from l2[OF this] have b: "chunk_len key ?st' (uuid (clk + p)) = Some (length (last ?sl))"
      using last_p by simp
    have "c0 < ?clk'" using i1 p by arith
    then show ?thesis unfolding k using a b by simp
  qed
  have c7: "\<forall>k. (\<forall>j. c0 \<le> j \<and> j < ?clk' \<longrightarrow> k \<noteq> ?K j) \<longrightarrow> ?st' k = st0 k"
  proof (intro allI impI)
    fix k assume k: "\<forall>j. c0 \<le> j \<and> j < ?clk' \<longrightarrow> k \<noteq> ?K j"
    then have "?st' k = st k" by (rule s3)
    moreover have "st k = st0 k" using i7 k by auto
    ultimately show "?st' k = st0 k" by simp
  qed
  have c8: "adjacent (im @ [?e])"
  proof (rule adjacent_snoc[OF i8])
    assume "im \<noteq> []"
    have "hd (chunk_names ?e) = uuid clk" using n0 by (simp add: upt_conv_Cons)
    moreover have "\<And>x. x \<in> set im \<Longrightarrow> uuid clk \<notin> set (chunk_names x)"
    proof
      fix x assume x: "x \<in> set im" and m: "uuid clk \<in> set (chunk_names x)"
      from i3 x have "set (chunk_names x) \<subseteq> uuid ` {c0..<clk}" by simp
      with m have "uuid clk \<in> uuid ` {c0..<clk}" by blast
      then obtain j where "uuid clk = uuid j" "j < clk" by auto
      with ok show False by (auto simp: names_ok_def dest: injD)
    qed
    ultimately show "linked im (last im) ?e" using ne by (simp add: linked_def list_all_iff)
  qed
  show ?thesis
    unfolding writer_inv_def using c1 c2 c3 c4 c5 c6 c7 c8 by blast
qed

lemma join_chunks_Cons:
  "rest \<noteq> [] \<Longrightarrow> join_chunks (c # rest) s e = drop s c @ concat (butlast rest) @ take e (last rest)"
  by (cases rest) simp_all

lemma join_chunks_single: "join_chunks [a @ f] (length a) (length a + length f) = f"
  by simp

lemma concat_butlast_last: "xs \<noteq> [] \<Longrightarrow> concat (butlast xs) @ last xs = concat xs"
proof -
  assume "xs \<noteq> []"
  then have "concat xs = concat (butlast xs @ [last xs])" by simp
  then show ?thesis by (simp del: append_butlast_last_id)
qed

lemma writer_inv_extend:
  assumes inv: "writer_inv uuid key cs c0 st0 st clk im bs"
    and ok: "names_ok uuid" and b: "b \<noteq> []" and im: "im \<noteq> []"
    and old: "st (get_chunk_key key (uuid (clk - 1))) = Some (Chunk old)"
    and short: "length old < cs"
  shows "writer_inv uuid key cs c0 st0
           (store_chunks uuid key clk (chunk_slices cs (drop (cs - length old) b))
              (st(get_chunk_key key (uuid (clk - 1)) \<mapsto> Chunk (old @ take (cs - length old) b))))
           (clk + length (chunk_slices cs (drop (cs - length old) b)))
           (im @ [\<lparr>chunk_names = uuid (clk - 1)
                      # map uuid [clk..<clk + length (chunk_slices cs (drop (cs - length old) b))],
                    start_byte = end_byte (last im),
                    end_byte = (if chunk_slices cs (drop (cs - length old) b) = []
                                then length old + length (take (cs - length old) b)
                                else length (last (chunk_slices cs (drop (cs - length old) b)))),
                    entry_shape = shp\<rparr>])
           (bs @ [b])"
proof -
  let ?first = "take (cs - length old) b"
  let ?rest = "chunk_slices cs (drop (cs - length old) b)"
  let ?n = "length ?rest"
  let ?m = "clk - 1"
  let ?K = "\<lambda>j. get_chunk_key key (uuid j)"
  let ?st1 = "st(?K ?m \<mapsto> Chunk (old @ ?first))"
  let ?st' = "store_chunks uuid key clk ?rest ?st1"
  let ?clk' = "clk + ?n"
  let ?end = "if ?rest = [] then length old + length ?first else length (last ?rest)"
  let ?e = "\<lparr>chunk_names = uuid ?m # map uuid [clk..<clk + ?n], start_byte = end_byte (last im),
              end_byte = ?end, entry_shape = shp\<rparr>"
  have cs: "0 < cs" using short by simp
  have i1: "c0 \<le> clk" and i2: "list_all2 (entry_ok key cs st) im bs"
    and i3: "\<forall>e \<in> set im. set (chunk_names e) \<subseteq> uuid ` {c0..<clk}"
    and i4: "\<forall>j. c0 \<le> j \<and> j < clk \<longrightarrow>
            (\<exists>l. chunk_len key st (uuid j) = Some l \<and> 0 < l \<and> l \<le> cs
                 \<and> (l < cs \<longrightarrow> Suc j = clk))"
    and i6: "im \<noteq> [] \<longrightarrow>
            c0 < clk \<and> last (chunk_names (last im)) = uuid (clk - 1)
            \<and> chunk_len key st (uuid (clk - 1)) = Some (end_byte (last im))"
    and i7: "\<forall>k. (\<forall>j. c0 \<le> j \<and> j < clk \<longrightarrow> k \<noteq> ?K j) \<longrightarrow> st k = st0 k"
    and i8: "adjacent im"
    using inv unfolding writer_inv_def by blast+
  have m: "c0 < clk" "c0 \<le> ?m" "?m < clk" "Suc ?m = clk" using i6 im by auto
  have lastname: "last (chunk_names (last im)) = uuid ?m" using i6 im by simp
  have endlast: "end_byte (last im) = length old"
    using i6 im old by (simp add: chunk_len_def)
  have first_pos: "0 < length ?first" using b short by simp
  have ext_le: "length (old @ ?first) \<le> cs" using short by simp
  have rest_full: "?rest \<noteq> [] \<Longrightarrow> length (old @ ?first) = cs"
  proof -
    assume "?rest \<noteq> []"
    then have "drop (cs - length old) b \<noteq> []" by auto
    then have "cs - length old < length b" by simp
    then show ?thesis using short by simp
  qed
  have rest_empty: "?rest = [] \<Longrightarrow> ?first = b"
    using cs by (simp add: chunk_slices_eq_Nil)
  have whole: "?first @ concat ?rest = b" using cs by (simp add: concat_chunk_slices)
  have s0: "?st' (?K ?m) = Some (Chunk (old @ ?first))"
  proof -
    have "?st' (?K ?m) = ?st1 (?K ?m)"
      using ok m by (intro store_chunks_other) (auto simp: names_ok_key_inj)
    then show ?thesis by simp
  qed
  have s1: "\<And>j. j < clk \<Longrightarrow> j \<noteq> ?m \<Longrightarrow> ?st' (?K j) = st (?K j)"
  proof -
    fix j assume j: "j < clk" "j \<noteq> ?m"
    have "?st' (?K j) = ?st1 (?K j)"
      using ok j by (intro store_chunks_other) (auto simp: names_ok_key_inj)
    also have "\<dots> = st (?K j)" using ok j by (simp add: names_ok_key_inj)
    finally show "?st' (?K j) = st (?K j)" .
  qed
  have s1': "\<And>j. j < clk \<Longrightarrow> ?st' (?K j) = ?st1 (?K j)"
    using ok by (intro store_chunks_other) (auto simp: names_ok_key_inj)
  have s2: "\<And>i. i < ?n \<Longrightarrow> ?st' (?K (clk + i)) = Some (Chunk (?rest ! i))"
    using ok by (rule store_chunks_at)
  have s3: "\<And>k. (\<forall>j. c0 \<le> j \<and> j < ?clk' \<longrightarrow> k \<noteq> ?K j) \<Longrightarrow> ?st' k = st k"
  proof -
    fix k assume k: "\<forall>j. c0 \<le> j \<and> j < ?clk' \<longrightarrow> k \<noteq> ?K j"
    have "?st' k = ?st1 k" using ok i1 k by (intro store_chunks_other) auto
    moreover have "k \<noteq> ?K ?m" using k m by auto
    ultimately show "?st' k = st k" by simp
  qed
  have l0: "chunk_len key ?st' (uuid ?m) = Some (length (old @ ?first))"
    using s0 by (simp add: chunk_len_def)
  have l1: "\<And>j. j < clk \<Longrightarrow> j \<noteq> ?m \<Longrightarrow> chunk_len key ?st' (uuid j) = chunk_len key st (uuid j)"
    using s1 by (simp add: chunk_len_def)
  have l2: "\<And>i. i < ?n \<Longrightarrow> chunk_len key ?st' (uuid (clk + i)) = Some (length (?rest ! i))"
    using s2 by (simp add: chunk_len_def)
  have butlast_full: "\<And>i. Suc i < ?n \<Longrightarrow> length (?rest ! i) = cs"
  proof -
    fix i assume "Suc i < ?n"
    then have il: "i < length (butlast ?rest)" by simp
    then have "butlast ?rest ! i \<in> set (butlast ?rest)" by (rule nth_mem)
    moreover have "butlast ?rest ! i = ?rest ! i" using il by (rule nth_butlast)
    ultimately have "?rest ! i \<in> set (butlast ?rest)" by simp
    with cs show "length (?rest ! i) = cs" by (rule chunk_slices_butlast_full)
  qed
  have c1: "c0 \<le> ?clk'" using i1 by simp
  have old_entries: "list_all2 (entry_ok key cs ?st') im bs"
  proof (rule list.rel_mono_strong[OF i2])
    fix e x assume e: "e \<in> set im" and "x \<in> set bs" and eo: "entry_ok key cs st e x"
    have e1: "entry_ok key cs ?st1 e x" using eo old short by (rule entry_ok_extend)
    show "entry_ok key cs ?st' e x"
    proof (rule entry_ok_cong[OF _ e1])
      fix n assume n: "n \<in> set (chunk_names e)"
      from i3 e have "set (chunk_names e) \<subseteq> uuid ` {c0..<clk}" by simp
      with n have "n \<in> uuid ` {c0..<clk}" by blast
      then obtain j where "n = uuid j" "j < clk" by auto
      with s1' show "?st' (get_chunk_key key n) = ?st1 (get_chunk_key key n)" by simp
    qed
  qed
  have fetched: "fetch_chunks key ?st' (chunk_names ?e) = Inr ((old @ ?first) # ?rest)"
  proof -
    have "fetch_chunks key ?st' (map uuid [clk..<clk + ?n]) = Inr ?rest"
      using s2 by (rule fetch_chunks_stored)
    with s0 show ?thesis by (simp add: fetch_chunks_Cons)
  qed
  have sb: "sample_bytes key ?st' ?e = Inr b"
  proof (cases "?rest = []")
    case True
    have "join_chunks [old @ ?first] (length old) (length old + length ?first) = ?first"
      by (rule join_chunks_single)
    with True fetched rest_empty[OF True] endlast show ?thesis
      by (simp add: sample_bytes_def del: join_chunks.simps)
  next
    case False
    have "join_chunks ((old @ ?first) # ?rest) (length old) (length (last ?rest))
          = ?first @ concat (butlast ?rest) @ last ?rest"
      using False by (simp add: join_chunks_Cons)
    also have "\<dots> = ?first @ concat ?rest" using False by (simp add: concat_butlast_last)
    also have "\<dots> = b" by (rule whole)
    finally have "join_chunks ((old @ ?first) # ?rest) (length old) (length (last ?rest)) = b" .
    with False fetched endlast show ?thesis
      by (simp add: sample_bytes_def del: join_chunks.simps)
  qed
  have new_last: "last (chunk_names ?e) = uuid (?clk' - 1)
                  \<and> chunk_len key ?st' (uuid (?clk' - 1)) = Some ?end"
  proof (cases "?rest = []")
    case True
    then show ?thesis using l0 by simp
  next
    case False
    then obtain p where p: "?n = Suc p" by (cases ?n) simp_all
    have k: "?clk' - 1 = clk + p" using p by simp
    have upt_p: "[clk..<clk + ?n] = [clk..<clk + p] @ [clk + p]" using p by simp
    have last_p: "last ?rest = ?rest ! p" using False p by (simp add: last_conv_nth)
    have "p < ?n" using p by simp
    from l2[OF this] have "chunk_len key ?st' (uuid (clk + p)) = Some (length (last ?rest))"
      using last_p by simp
    moreover have "last (chunk_names ?e) = uuid (clk + p)" using upt_p by simp
    ultimately show ?thesis unfolding k using False by simp
  qed
  have new_pre: "list_all (\<lambda>n. chunk_len key ?st' n = Some cs) (butlast (chunk_names ?e))"
  proof (cases "?rest = []")
    case True
    then show ?thesis by simp
  next
    case False
    then obtain p where p: "?n = Suc p" by (cases ?n) simp_all
    have upt_p: "[clk..<clk + ?n] = [clk..<clk + p] @ [clk + p]" using p by simp
    have bl: "butlast (chunk_names ?e) = uuid ?m # map uuid [clk..<clk + p]"
      using upt_p by simp
    have a: "chunk_len key ?st' (uuid ?m) = Some cs" using l0 rest_full[OF False] by simp
    have "\<forall>n \<in> set (map uuid [clk..<clk + p]). chunk_len key ?st' n = Some cs"
    proof
      fix n assume "n \<in> set (map uuid [clk..<clk + p])"
      then obtain j where j: "clk \<le> j" "j < clk + p" and n: "n = uuid j" by auto
      define i where "i = j - clk"
      have i1': "Suc i < ?n" using j p unfolding i_def by arith
      have i2': "j = clk + i" using j unfolding i_def by arith
      have "i < ?n" using i1' by simp
      from l2[OF this] butlast_full[OF i1'] i2' n show "chunk_len key ?st' n = Some cs" by simp
    qed
    with a show ?thesis unfolding bl by (simp add: list_all_iff)
  qed
  have end_le: "case chunk_len key ?st' (last (chunk_names ?e)) of None \<Rightarrow> False
                | Some l \<Rightarrow> end_byte ?e \<le> l"
    using new_last by simp
  have new_entry: "entry_ok key cs ?st' ?e b"
    unfolding entry_ok_def using new_pre end_le sb by simp
  have c2: "list_all2 (entry_ok key cs ?st') (im @ [?e]) (bs @ [b])"
    using old_entries new_entry by (simp add: list_all2_appendI)
  have c3: "\<forall>e \<in> set (im @ [?e]). set (chunk_names e) \<subseteq> uuid ` {c0..<?clk'}"
  proof
    fix e assume "e \<in> set (im @ [?e])"
    then consider "e \<in> set im" | "e = ?e" by auto
    then show "set (chunk_names e) \<subseteq> uuid ` {c0..<?clk'}"
    proof cases
      case 1
      with i3 have "set (chunk_names e) \<subseteq> uuid ` {c0..<clk}" by simp
      then show ?thesis by auto
    next
      case 2
      have "uuid ?m \<in> uuid ` {c0..<?clk'}" using m by auto
      moreover have "set (map uuid [clk..<clk + ?n]) \<subseteq> uuid ` {c0..<?clk'}" using i1 by auto
      ultimately show ?thesis using 2 by simp
    qed
  qed
  have c4: "\<forall>j. c0 \<le> j \<and> j < ?clk' \<longrightarrow>
            (\<exists>l. chunk_len key ?st' (uuid j) = Some l \<and> 0 < l \<and> l \<le> cs
                 \<and> (l < cs \<longrightarrow> Suc j = ?clk'))"
  proof (intro allI impI)
    fix j assume j: "c0 \<le> j \<and> j < ?clk'"
    consider "j < clk" "j \<noteq> ?m" | "j = ?m" | "\<not> j < clk" by blast
    then show "\<exists>l. chunk_len key ?st' (uuid j) = Some l \<and> 0 < l \<and> l \<le> cs \<and> (l < cs \<longrightarrow> Suc j = ?clk')"
    proof cases
      case 1
      with i4 j obtain l where l: "chunk_len key st (uuid j) = Some l" "0 < l" "l \<le> cs"
        "l < cs \<longrightarrow> Suc j = clk" by blast
      from l(4) 1 m have "\<not> l < cs" by auto
      with l have "l = cs" by simp
      with l l1[OF 1] cs show ?thesis by simp
    next
      case 2
      have "length (old @ ?first) < cs \<longrightarrow> Suc ?m = ?clk'"
      proof
        assume "length (old @ ?first) < cs"
        then have "?rest = []" using rest_full by fastforce
        then show "Suc ?m = ?clk'" using m by simp
      qed
      with 2 l0 first_pos ext_le show ?thesis by simp
    next
      case 3
      define i where "i = j - clk"
      have i1': "j = clk + i" using 3 unfolding i_def by arith
      have i2': "i < ?n" using 3 j unfolding i_def by arith
      have mem: "?rest ! i \<in> set ?rest" using i2' by simp
      have len: "0 < length (?rest ! i) \<and> length (?rest ! i) \<le> cs"
        using cs mem by (rule chunk_slices_lengths)
      have "length (?rest ! i) < cs \<longrightarrow> Suc i = ?n"
      proof (rule impI, rule ccontr)
        assume sh: "length (?rest ! i) < cs" and "Suc i \<noteq> ?n"
        with i2' have "Suc i < ?n" by simp
        from butlast_full[OF this] sh show False by simp
      qed
      with len l2[OF i2'] i1' show ?thesis by simp
    qed
  qed
  have c5: "im @ [?e] = [] \<longrightarrow> ?clk' = c0" by simp
  have c6: "im @ [?e] \<noteq> [] \<longrightarrow>
            c0 < ?clk' \<and> last (chunk_names (last (im @ [?e]))) = uuid (?clk' - 1)
            \<and> chunk_len key ?st' (uuid (?clk' - 1)) = Some (end_byte (last (im @ [?e])))"
  proof -
    have "c0 < ?clk'" using m by arith
    then show ?thesis using new_last by simp
  qed
  have c7: "\<forall>k. (\<forall>j. c0 \<le> j \<and> j < ?clk' \<longrightarrow> k \<noteq> ?K j) \<longrightarrow> ?st' k = st0 k"
  proof (intro allI impI)
    fix k assume k: "\<forall>j. c0 \<le> j \<and> j < ?clk' \<longrightarrow> k \<noteq> ?K j"
    then have "?st' k = st k" by (rule s3)
    moreover have "st k = st0 k" using i7 k by auto
    ultimately show "?st' k = st0 k" by simp
  qed
  have c8: "adjacent (im @ [?e])"
  proof (rule adjacent_snoc[OF i8])
    show "linked im (last im) ?e" using lastname by (simp add: linked_def)
  qed
  show ?thesis
    unfolding writer_inv_def using c1 c2 c3 c4 c5 c6 c7 c8 by blast
qed

lemma writer_inv_init: "writer_inv uuid key cs c0 st0 st0 c0 [] []"
  by (auto simp: writer_inv_def adjacent_def)

lemma writer_step:
  assumes inv: "writer_inv uuid key cs c0 st0 st clk im bs"
    and ok: "names_ok uuid" and cs: "0 < cs" and b: "b \<noteq> []"
  shows "\<exists>names s e st' clk'.
           write_bytes uuid b key cs (st, clk) im = Inr ((names, s, e), (st', clk'))
           \<and> writer_inv uuid key cs c0 st0 st' clk'
               (im @ [\<lparr>chunk_names = names, start_byte = s, end_byte = e, entry_shape = shp\<rparr>])
               (bs @ [b])"
proof (cases "im = []")
  case True
  have g: "get_last_chunk key im st = Inr ([], [])" using True by (simp add: get_last_chunk_def)
  have w: "write_bytes uuid b key cs (st, clk) im =
           Inr ((map uuid [clk..<clk + length (chunk_slices cs b)], 0,
                 length (last (chunk_slices cs b))),
                (store_chunks uuid key clk (chunk_slices cs b) st,
                 clk + length (chunk_slices cs b)))"
    using g _ b cs by (rule write_bytes_fresh) (simp add: True)
  have "im = [] \<or> chunk_len key st (uuid (clk - 1)) = Some cs" using True by simp
  from writer_inv_fresh[OF inv ok cs b this, of shp] w show ?thesis by blast
next
  case False
  have i2: "list_all2 (entry_ok key cs st) im bs"
    and i4: "\<forall>j. c0 \<le> j \<and> j < clk \<longrightarrow>
            (\<exists>l. chunk_len key st (uuid j) = Some l \<and> 0 < l \<and> l \<le> cs
                 \<and> (l < cs \<longrightarrow> Suc j = clk))"
    and i6: "im \<noteq> [] \<longrightarrow>
            c0 < clk \<and> last (chunk_names (last im)) = uuid (clk - 1)
            \<and> chunk_len key st (uuid (clk - 1)) = Some (end_byte (last im))"
    using inv unfolding writer_inv_def by blast+
  from i6 False have m: "c0 < clk" and ln: "last (chunk_names (last im)) = uuid (clk - 1)"
    and cl: "chunk_len key st (uuid (clk - 1)) = Some (end_byte (last im))" by simp_all
  from cl obtain old where old: "st (get_chunk_key key (uuid (clk - 1))) = Some (Chunk old)"
    by (auto simp: chunk_len_Some)
  have "last im \<in> set im" using False by simp
  then obtain x where "entry_ok key cs st (last im) x"
    using i2 by (auto simp: list_all2_conv_all_nth in_set_conv_nth)
  then have ne: "chunk_names (last im) \<noteq> []" by (simp add: entry_ok_def)
  have g: "get_last_chunk key im st = Inr (uuid (clk - 1), old)"
    using False ne ln old
    by (cases "chunk_names (last im)") (simp_all add: get_last_chunk_def read_chunk_def)
  have le: "length old \<le> cs"
  proof -
    have "c0 \<le> clk - 1 \<and> clk - 1 < clk" using m by arith
    with i4 obtain l where "chunk_len key st (uuid (clk - 1)) = Some l" "l \<le> cs" by blast
    with old show ?thesis by (simp add: chunk_len_def)
  qed
  show ?thesis
  proof (cases "length old < cs")
    case True
    have w: "write_bytes uuid b key cs (st, clk) im =
           Inr ((uuid (clk - 1) # map uuid [clk..<clk + length (chunk_slices cs (drop (cs - length old) b))],
                 end_byte (last im),
                 (if chunk_slices cs (drop (cs - length old) b) = []
                  then length old + length (take (cs - length old) b)
                  else length (last (chunk_slices cs (drop (cs - length old) b))))),
                (store_chunks uuid key clk (chunk_slices cs (drop (cs - length old) b))
                   (st(get_chunk_key key (uuid (clk - 1)) \<mapsto> Chunk (old @ take (cs - length old) b))),
                 clk + length (chunk_slices cs (drop (cs - length old) b))))"
      using g False True b by (rule write_bytes_extend)
    from writer_inv_extend[OF inv ok b False old True, of shp] w show ?thesis by blast
  next
    case nshort: False
    with le have eq: "length old = cs" by simp
    have w: "write_bytes uuid b key cs (st, clk) im =
           Inr ((map uuid [clk..<clk + length (chunk_slices cs b)], 0,
                 length (last (chunk_slices cs b))),
                (store_chunks uuid key clk (chunk_slices cs b) st,
                 clk + length (chunk_slices cs b)))"
      using g _ b cs by (rule write_bytes_fresh) (simp add: eq)
    have "im = [] \<or> chunk_len key st (uuid (clk - 1)) = Some cs"
      using old eq by (simp add: chunk_len_def)
    from writer_inv_fresh[OF inv ok cs b this, of shp] w show ?thesis by blast
  qed
qed

lemma write_sample_empty:
  assumes "to_bytes s = []"
  shows "write_sample uuid s key cs w im to_bytes \<noteq> Inr r"
proof (cases "write_bytes uuid [] key cs w im")
  case (Inl e)
  then show ?thesis using assms by (simp add: write_sample_def)
next
  case (Inr x)
  with write_bytes_empty[of uuid key cs w im x] show ?thesis by simp
qed

lemma write_samples_inv:
  assumes ok: "names_ok uuid" and cs: "0 < cs"
  shows "writer_inv uuid key cs c0 st0 st clk im bs
     \<Longrightarrow> write_samples uuid samples key cs (st, clk) im to_bytes = Inr (im', (st', clk'))
     \<Longrightarrow> writer_inv uuid key cs c0 st0 st' clk' im' (bs @ map to_bytes samples)
         \<and> map entry_shape im' = map entry_shape im @ map shape samples"
proof (induction samples arbitrary: st clk im bs)
  case Nil
  then show ?case by simp
next
  case (Cons s samples)
  show ?case
  proof (cases "to_bytes s = []")
    case True
    have "write_sample uuid s key cs (st, clk) im to_bytes \<noteq> Inr r" for r
      using True by (rule write_sample_empty)
    with Cons.prems(2) show ?thesis by (auto split: sum.splits)
  next
    case False
    from writer_step[OF Cons.prems(1) ok cs False, of "shape s"]
    obtain names sb eb st1 clk1 where
      w: "write_bytes uuid (to_bytes s) key cs (st, clk) im = Inr ((names, sb, eb), (st1, clk1))"
      and inv1: "writer_inv uuid key cs c0 st0 st1 clk1
               (im @ [\<lparr>chunk_names = names, start_byte = sb, end_byte = eb,
                        entry_shape = shape s\<rparr>])
               (bs @ [to_bytes s])"
      by blast
    let ?im1 = "im @ [\<lparr>chunk_names = names, start_byte = sb, end_byte = eb,
                        entry_shape = shape s\<rparr>]"
    have ws: "write_sample uuid s key cs (st, clk) im to_bytes = Inr (?im1, (st1, clk1))"
      using w by (simp add: write_sample_def)
    with Cons.prems(2) have rest:
      "write_samples uuid samples key cs (st1, clk1) ?im1 to_bytes = Inr (im', (st', clk'))"
      by simp
    from Cons.IH[OF inv1 rest] show ?thesis by simp
  qed
qed

lemma write_samples_total:
  assumes ok: "names_ok uuid" and cs: "0 < cs"
  shows "writer_inv uuid key cs c0 st0 st clk im bs
     \<Longrightarrow> \<forall>s \<in> set samples. to_bytes s \<noteq> []
     \<Longrightarrow> \<exists>im' st' clk'. write_samples uuid samples key cs (st, clk) im to_bytes
                          = Inr (im', (st', clk'))"
proof (induction samples arbitrary: st clk im bs)
  case Nil
  then show ?case by simp
next
  case (Cons s samples)
  have ne: "to_bytes s \<noteq> []" using Cons.prems(2) by simp
  from writer_step[OF Cons.prems(1) ok cs ne, of "shape s"]
  obtain names sb eb st1 clk1 where
    w: "write_bytes uuid (to_bytes s) key cs (st, clk) im = Inr ((names, sb, eb), (st1, clk1))"
    and inv1: "writer_inv uuid key cs c0 st0 st1 clk1
             (im @ [\<lparr>chunk_names = names, start_byte = sb, end_byte = eb,
                      entry_shape = shape s\<rparr>])
             (bs @ [to_bytes s])"
    by blast
  let ?im1 = "im @ [\<lparr>chunk_names = names, start_byte = sb, end_byte = eb,
                      entry_shape = shape s\<rparr>]"
  have ws: "write_sample uuid s key cs (st, clk) im to_bytes = Inr (?im1, (st1, clk1))"
    using w by (simp add: write_sample_def)
  have "\<forall>s \<in> set samples. to_bytes s \<noteq> []" using Cons.prems(2) by simp
  from Cons.IH[OF inv1 this] ws show ?case by simp
qed

lemma write_samples_nonempty:
  "write_samples uuid samples key cs w im to_bytes = Inr r \<Longrightarrow> s \<in> set samples \<Longrightarrow> to_bytes s \<noteq> []"
proof (induction samples arbitrary: w im)
  case Nil
  then show ?case by simp
next
  case (Cons a samples)
  from Cons.prems(1) obtain im1 w1 where
    ws: "write_sample uuid a key cs w im to_bytes = Inr (im1, w1)"
    and rest: "write_samples uuid samples key cs w1 im1 to_bytes = Inr r"
    by (auto split: sum.splits)
  have a: "to_bytes a \<noteq> []"
  proof
    assume "to_bytes a = []"
    then have "write_sample uuid a key cs w im to_bytes \<noteq> Inr (im1, w1)"
      by (rule write_sample_empty)
    with ws show False by simp
  qed
  show ?case
  proof (cases "s = a")
    case True
    with a show ?thesis by simp
  next
    case False
    with Cons.prems(2) have "s \<in> set samples" by simp
    from Cons.IH[OF rest this] show ?thesis .
  qed
qed

lemma block_arith: "(i + Suc d) * (s::nat) - i * s = s + d * s"
  by (simp add: add_mult_distrib)

lemma take_block_length:
  assumes "i < n" and "length xs = n * s"
  shows "length (take s (drop (i * s) xs)) = s"
proof -
  from assms(1) obtain k where k: "n = Suc (i + k)" using less_imp_Suc_add by blast
  have "length xs = (i + Suc k) * s" using assms(2) by (simp add: k)
  then have "length xs - i * s = s + k * s" by (simp only: block_arith)
  then show ?thesis by simp
qed

lemma np_getitem_sample:
  assumes wf: "wf_array arr" and sh: "shape arr = n # sh" and i: "i < n"
  shows "shape (np_getitem arr i) = sh"
    and "dtype (np_getitem arr i) = dtype arr"
    and "length (data (np_getitem arr i)) = prod_list sh * itemsize (dtype arr)"
proof -
  show "shape (np_getitem arr i) = sh" using sh by (simp add: np_getitem_def)
  show "dtype (np_getitem arr i) = dtype arr" by (simp add: np_getitem_def)
  have sz: "sample_nbytes arr = prod_list sh * itemsize (dtype arr)"
    using sh by (simp add: sample_nbytes_def)
  have len: "length (data arr) = n * sample_nbytes arr"
    using wf sh by (simp add: wf_array_def sample_nbytes_def)
  have "length (take (sample_nbytes arr) (drop (i * sample_nbytes arr) (data arr)))
          = sample_nbytes arr"
    using i len by (rule take_block_length)
  then show "length (data (np_getitem arr i)) = prod_list sh * itemsize (dtype arr)"
    by (simp only: np_getitem_def sz ndarray.simps)
qed
lemma normalize_wf:
  "normalize_and_batchify_shape A batched = Inr arr \<Longrightarrow> wf_array A
   \<Longrightarrow> wf_array arr \<and> dtype arr = dtype A \<and> data arr = data A
       \<and> shape arr = (if batched then shape A else 1 # shape A)"
  by (auto simp: normalize_and_batchify_shape_def wf_array_def split: if_splits)
lemma final_storage_chunk:
  "well_named name \<Longrightarrow>
   ((st(get_meta_key key \<mapsto> m))(get_index_map_key key \<mapsto> x)) (get_chunk_key key name)
     = st (get_chunk_key key name)"
  by (simp add: chunk_key_not_meta chunk_key_not_index)
lemma final_storage_index:
  "read_index_map key ((st(get_meta_key key \<mapsto> m))(get_index_map_key key \<mapsto> Pickled_index_map im))
     = Inr im"
  by (simp add: read_index_map_def)
lemma final_storage_meta:
  "read_tensor_meta key ((st(get_meta_key key \<mapsto> Pickled_meta m))(get_index_map_key key \<mapsto> x))
     = Inr m"
  by (simp add: read_tensor_meta_def meta_key_not_index)

lemma write_array_success:
  assumes ok: "names_ok uuid" and cs: "0 < cs"
    and w: "write_array uuid A key (st0, c0) cs batched to_bytes = Inr ((), (st', clk'))"
  shows "\<exists>arr n sh im st.
           normalize_and_batchify_shape A batched = Inr arr
           \<and> shape arr = n # sh
           \<and> st0 (get_meta_key key) = None \<and> st0 (get_index_map_key key) = None
           \<and> writer_inv uuid key cs c0 st0 st clk' im
               (map to_bytes (map (np_getitem arr) [0..<n]))
           \<and> map entry_shape im = map shape (map (np_getitem arr) [0..<n])
           \<and> (\<forall>s \<in> set (map (np_getitem arr) [0..<n]). to_bytes s \<noteq> [])
           \<and> st' = (st(get_meta_key key \<mapsto>
                        Pickled_meta \<lparr>meta_chunk_size = cs, meta_dtype = dtype_name (dtype arr),
                                      meta_length = n, min_shape = sh, max_shape = sh\<rparr>))
                     (get_index_map_key key \<mapsto> Pickled_index_map im)"
proof -
  from w obtain arr where arr: "normalize_and_batchify_shape A batched = Inr arr"
    by (auto simp: write_array_def split: sum.splits)
  from w arr have absent: "st0 (get_meta_key key) = None" "st0 (get_index_map_key key) = None"
    by (auto simp: write_array_def split: if_splits)
  from w arr absent obtain n sh where sh: "shape arr = n # sh"
    by (cases "shape arr") (auto simp: write_array_def)
  let ?samples = "map (np_getitem arr) [0..<n]"
  from w arr absent sh obtain im st where
    ws: "write_samples uuid ?samples key cs (st0, c0) [] to_bytes = Inr (im, (st, clk'))"
    and st': "st' = (st(get_meta_key key \<mapsto>
                        Pickled_meta \<lparr>meta_chunk_size = cs, meta_dtype = dtype_name (dtype arr),
                                      meta_length = n, min_shape = sh, max_shape = sh\<rparr>))
                     (get_index_map_key key \<mapsto> Pickled_index_map im)"
    by (auto simp: write_array_def write_tensor_meta_def Let_def split: sum.splits)
  from write_samples_inv[OF ok cs writer_inv_init ws]
  have inv: "writer_inv uuid key cs c0 st0 st clk' im (map to_bytes ?samples)"
    and shp: "map entry_shape im = map shape ?samples" by simp_all
  have ne: "\<forall>s \<in> set ?samples. to_bytes s \<noteq> []"
    using write_samples_nonempty[OF ws] by blast
  from arr sh absent inv shp ne st' show ?thesis by blast
qed


lemma write_array_entries:
  assumes ok: "names_ok uuid" and cs: "0 < cs"
    and w: "write_array uuid A key (st0, c0) cs batched to_bytes = Inr ((), (st', clk'))"
  shows "\<exists>arr n sh im.
           normalize_and_batchify_shape A batched = Inr arr
           \<and> shape arr = n # sh
           \<and> read_index_map key st' = Inr im
           \<and> read_tensor_meta key st' =
                Inr \<lparr>meta_chunk_size = cs, meta_dtype = dtype_name (dtype arr),
                     meta_length = n, min_shape = sh, max_shape = sh\<rparr>
           \<and> list_all2 (entry_ok key cs st') im (map to_bytes (map (np_getitem arr) [0..<n]))
           \<and> map entry_shape im = map shape (map (np_getitem arr) [0..<n])
           \<and> adjacent im
           \<and> (\<forall>s \<in> set (map (np_getitem arr) [0..<n]). to_bytes s \<noteq> [])"
proof -
  from write_array_success[OF ok cs w] obtain arr n sh im st where
    arr: "normalize_and_batchify_shape A batched = Inr arr"
    and sh: "shape arr = n # sh"
    and inv: "writer_inv uuid key cs c0 st0 st clk' im
               (map to_bytes (map (np_getitem arr) [0..<n]))"
    and shp: "map entry_shape im = map shape (map (np_getitem arr) [0..<n])"
    and ne: "\<forall>s \<in> set (map (np_getitem arr) [0..<n]). to_bytes s \<noteq> []"
    and st': "st' = (st(get_meta_key key \<mapsto>
                        Pickled_meta \<lparr>meta_chunk_size = cs, meta_dtype = dtype_name (dtype arr),
                                      meta_length = n, min_shape = sh, max_shape = sh\<rparr>))
                     (get_index_map_key key \<mapsto> Pickled_index_map im)"
    by blast
  let ?bs = "map to_bytes (map (np_getitem arr) [0..<n])"
  have i2: "list_all2 (entry_ok key cs st) im ?bs"
    and i3: "\<forall>e \<in> set im. set (chunk_names e) \<subseteq> uuid ` {c0..<clk'}"
    and i8: "adjacent im"
    using inv unfolding writer_inv_def by blast+
  have "list_all2 (entry_ok key cs st') im ?bs"
  proof (rule list.rel_mono_strong[OF i2])
    fix e x assume e: "e \<in> set im" and "x \<in> set ?bs" and eo: "entry_ok key cs st e x"
    show "entry_ok key cs st' e x"
    proof (rule entry_ok_cong[OF _ eo])
      fix nm assume nm: "nm \<in> set (chunk_names e)"
      from i3 e have "set (chunk_names e) \<subseteq> uuid ` {c0..<clk'}" by simp
      with nm have "nm \<in> uuid ` {c0..<clk'}" by blast
      then have "well_named nm" using ok by (auto simp: names_ok_def)
      then show "st' (get_chunk_key key nm) = st (get_chunk_key key nm)"
        unfolding st' by (rule final_storage_chunk)
    qed
  qed
  moreover have "read_index_map key st' = Inr im" unfolding st' by (rule final_storage_index)
  moreover have "read_tensor_meta key st' =
                Inr \<lparr>meta_chunk_size = cs, meta_dtype = dtype_name (dtype arr),
                     meta_length = n, min_shape = sh, max_shape = sh\<rparr>"
    unfolding st' by (rule final_storage_meta)
  ultimately show ?thesis using arr sh shp i8 ne by blast
qed

lemma write_array_chunks:
  assumes ok: "names_ok uuid" and cs: "0 < cs"
    and fresh: "\<forall>name. well_named name \<longrightarrow> st0 (get_chunk_key key name) = None"
    and w: "write_array uuid A key (st0, c0) cs batched to_bytes = Inr ((), (st', clk'))"
    and nm: "well_named name" and present: "st' (get_chunk_key key name) \<noteq> None"
  shows "\<exists>j l. name = uuid j \<and> chunk_len key st' name = Some l \<and> 0 < l \<and> l \<le> cs
              \<and> (l < cs \<longrightarrow> Suc j = clk')"
proof -
  from write_array_success[OF ok cs w] obtain arr n sh im st where
    inv: "writer_inv uuid key cs c0 st0 st clk' im
               (map to_bytes (map (np_getitem arr) [0..<n]))"
    and st': "st' = (st(get_meta_key key \<mapsto>
                        Pickled_meta \<lparr>meta_chunk_size = cs, meta_dtype = dtype_name (dtype arr),
                                      meta_length = n, min_shape = sh, max_shape = sh\<rparr>))
                     (get_index_map_key key \<mapsto> Pickled_index_map im)"
    by blast
  have i4: "\<forall>j. c0 \<le> j \<and> j < clk' \<longrightarrow>
            (\<exists>l. chunk_len key st (uuid j) = Some l \<and> 0 < l \<and> l \<le> cs
                 \<and> (l < cs \<longrightarrow> Suc j = clk'))"
    and i7: "\<forall>k. (\<forall>j. c0 \<le> j \<and> j < clk' \<longrightarrow> k \<noteq> get_chunk_key key (uuid j)) \<longrightarrow> st k = st0 k"
    using inv unfolding writer_inv_def by blast+
  have same: "st' (get_chunk_key key name) = st (get_chunk_key key name)"
    unfolding st' using nm by (rule final_storage_chunk)
  have "\<exists>j. c0 \<le> j \<and> j < clk' \<and> get_chunk_key key name = get_chunk_key key (uuid j)"
  proof (rule ccontr)
    assume "\<not> ?thesis"
    then have "\<forall>j. c0 \<le> j \<and> j < clk' \<longrightarrow> get_chunk_key key name \<noteq> get_chunk_key key (uuid j)"
      by blast
    with i7 have "st (get_chunk_key key name) = st0 (get_chunk_key key name)" by blast
    with fresh nm same present show False by simp
  qed
  then obtain j where j: "c0 \<le> j" "j < clk'"
    and k: "get_chunk_key key name = get_chunk_key key (uuid j)" by blast
  have "well_named (uuid j)" using ok by (simp add: names_ok_def)
  with k nm have name: "name = uuid j" by (simp add: chunk_key_inj)
  from i4 j obtain l where l: "chunk_len key st (uuid j) = Some l" "0 < l" "l \<le> cs"
    "l < cs \<longrightarrow> Suc j = clk'" by blast
  have "chunk_len key st' name = chunk_len key st name" using same by (simp add: chunk_len_def)
  with l name show ?thesis by auto
qed

lemma names_ok_example: "names_ok example_uuid"
proof -
  have "inj example_uuid"
  proof (rule injI)
    fix x y assume "example_uuid x = example_uuid y"
    then have "length (example_uuid x) = length (example_uuid y)" by simp
    then show "x = y" by (simp add: example_uuid_def)
  qed
  moreover have "\<forall>n. well_named (example_uuid n)"
    by (simp add: example_uuid_def well_named_def)
  ultimately show ?thesis by (simp add: names_ok_def)
qed

lemmas write_eval =
  write_array_def normalize_and_batchify_shape_def get_meta_key_def get_index_map_key_def
  get_chunk_key_def META_FILENAME_def INDEX_MAP_FILENAME_def CHUNKS_FOLDER_def
  write_sample_def write_bytes_def get_last_chunk_def read_chunk_def generate_chunks_def
  chunk_slices_Cons write_chunk_def np_getitem_def sample_nbytes_def row_wise_to_bytes_def
  write_tensor_meta_def example_uuid_def Let_def upt_conv_Cons

lemmas read_eval =
  read_array_def read_tensor_meta_def read_index_map_def single_threaded_get_samples_def
  multi_threaded_get_samples_def
  py_getslice_def slice_indices_def slice_None_def py_range_def py_enumerate_def
  get_sample_def sample_bytes_def fetch_chunks_Cons np_dtype_def all_dtypes_def
  np_frombuffer_def np_reshape_def py_insert_def np_array_def chunk_len_def
  get_meta_key_def get_index_map_key_def
  get_chunk_key_def META_FILENAME_def INDEX_MAP_FILENAME_def CHUNKS_FOLDER_def
  example_uuid_def Let_def upt_conv_Cons

lemma scenario_S2_write:
  "write_array example_uuid \<lparr>dtype = UInt8, shape = [2, 3], data = [a1, a2, a3, b1, b2, b3]\<rparr>
     ''tensor'' (Map.empty, 0) 4 True row_wise_to_bytes =
   Inr ((),
        [''tensor/chunks/c'' \<mapsto> Chunk [a1, a2, a3, b1],
         ''tensor/chunks/cc'' \<mapsto> Chunk [b2, b3],
         ''tensor/meta.json'' \<mapsto>
           Pickled_meta \<lparr>meta_chunk_size = 4, meta_dtype = ''uint8'', meta_length = 2,
                         min_shape = [3], max_shape = [3]\<rparr>,
         ''tensor/index_map.json'' \<mapsto>
           Pickled_index_map
             [\<lparr>chunk_names = [''c''], start_byte = 0, end_byte = 3, entry_shape = [3]\<rparr>,
              \<lparr>chunk_names = [''c'', ''cc''], start_byte = 3, end_byte = 2,
                entry_shape = [3]\<rparr>]],
        2)"
  by (simp add: write_eval eval_nat_numeral)

lemma scenario_S2_read:
  "read_array completion ''tensor''
        [''tensor/chunks/c'' \<mapsto> Chunk [a1, a2, a3, b1],
         ''tensor/chunks/cc'' \<mapsto> Chunk [b2, b3],
         ''tensor/meta.json'' \<mapsto>
           Pickled_meta \<lparr>meta_chunk_size = 4, meta_dtype = ''uint8'', meta_length = 2,
                         min_shape = [3], max_shape = [3]\<rparr>,
         ''tensor/index_map.json'' \<mapsto>
           Pickled_index_map
             [\<lparr>chunk_names = [''c''], start_byte = 0, end_byte = 3, entry_shape = [3]\<rparr>,
              \<lparr>chunk_names = [''c'', ''cc''], start_byte = 3, end_byte = 2,
                entry_shape = [3]\<rparr>]]
        slice_None False
   = Inr \<lparr>dtype = UInt8, shape = [2, 3], data = [a1, a2, a3, b1, b2, b3]\<rparr>"
  by (simp add: read_eval)

lemma example_write:
  "write_array example_uuid example_array ''tensor'' (Map.empty, 0) 4 True row_wise_to_bytes
     = Inr ((), (example_storage, 2))"
  unfolding example_array_def example_storage_def by (rule scenario_S2_write)

lemma example_wf: "wf_array example_array"
  by (simp add: wf_array_def example_array_def)

section \<open>The chunk-size bound (C2)\<close>

text \<open>
  C2. After a successful \<open>write_array\<close> with chunk size \<open>chunk_size\<close> to a fresh key (no
  blob under the key's chunk folder before the call), every blob stored under a chunk key
  of the key is a chunk of length at most \<open>chunk_size\<close>, and at most one of these chunks
  is shorter than \<open>chunk_size\<close>.
\<close>

theorem chunk_size_bound:
  assumes "names_ok uuid" and "0 < chunk_size"
    and "\<forall>name. well_named name \<longrightarrow> st0 (get_chunk_key key name) = None"
    and "write_array uuid A key (st0, c0) chunk_size batched to_bytes = Inr ((), (st', c'))"
  shows "(\<forall>name. well_named name \<longrightarrow> st' (get_chunk_key key name) \<noteq> None \<longrightarrow>
            (\<exists>l. chunk_len key st' name = Some l \<and> l \<le> chunk_size))
       \<and> (\<forall>n1 n2 l1 l2.
            well_named n1 \<and> well_named n2
            \<and> chunk_len key st' n1 = Some l1 \<and> l1 < chunk_size
            \<and> chunk_len key st' n2 = Some l2 \<and> l2 < chunk_size \<longrightarrow> n1 = n2)"
proof (intro conjI allI impI)
  fix name assume "well_named name" and "st' (get_chunk_key key name) \<noteq> None"
  from write_array_chunks[OF assms this]
  show "\<exists>l. chunk_len key st' name = Some l \<and> l \<le> chunk_size" by blast
next
  fix n1 n2 l1 l2
  assume a: "well_named n1 \<and> well_named n2
            \<and> chunk_len key st' n1 = Some l1 \<and> l1 < chunk_size
            \<and> chunk_len key st' n2 = Some l2 \<and> l2 < chunk_size"
  then have p1: "st' (get_chunk_key key n1) \<noteq> None" and p2: "st' (get_chunk_key key n2) \<noteq> None"
    by (auto simp: chunk_len_Some)
  from a have w1: "well_named n1" and w2: "well_named n2" by simp_all
  from write_array_chunks[OF assms w1 p1] a obtain j1 where j1: "n1 = uuid j1" "Suc j1 = c'"
    by auto
  from write_array_chunks[OF assms w2 p2] a obtain j2 where j2: "n2 = uuid j2" "Suc j2 = c'"
    by auto
  have "j1 = j2" using j1(2) j2(2) by arith
  with j1(1) j2(1) show "n1 = n2" by simp
qed

theorem chunk_size_bound_witness:
  "names_ok example_uuid \<and> 0 < (4::nat)
   \<and> (\<exists>st'. write_array example_uuid example_array ''tensor'' (Map.empty, 0) 4 True
                row_wise_to_bytes = Inr ((), (st', 2))
            \<and> chunk_len ''tensor'' st' (example_uuid 0) = Some 4
            \<and> chunk_len ''tensor'' st' (example_uuid 1) = Some 2
            \<and> (\<forall>name. well_named name \<longrightarrow> st' (get_chunk_key ''tensor'' name) \<noteq> None \<longrightarrow>
                  (\<exists>l. chunk_len ''tensor'' st' name = Some l \<and> l \<le> 4))
            \<and> (\<forall>n1 n2 l1 l2.
                  well_named n1 \<and> well_named n2
                  \<and> chunk_len ''tensor'' st' n1 = Some l1 \<and> l1 < 4
                  \<and> chunk_len ''tensor'' st' n2 = Some l2 \<and> l2 < 4 \<longrightarrow> n1 = n2))"
proof -
  have fresh: "\<forall>name. well_named name \<longrightarrow> Map.empty (get_chunk_key ''tensor'' name) = None"
    by simp
  have pos: "0 < (4::nat)" by simp
  have a: "chunk_len ''tensor'' example_storage (example_uuid 0) = Some 4"
    by (simp add: read_eval example_storage_def)
  have b: "chunk_len ''tensor'' example_storage (example_uuid 1) = Some 2"
    by (simp add: read_eval example_storage_def)
  note c = chunk_size_bound[OF names_ok_example pos fresh example_write]
  have "\<exists>st'. write_array example_uuid example_array ''tensor'' (Map.empty, 0) 4 True
                row_wise_to_bytes = Inr ((), (st', 2))
            \<and> chunk_len ''tensor'' st' (example_uuid 0) = Some 4
            \<and> chunk_len ''tensor'' st' (example_uuid 1) = Some 2
            \<and> (\<forall>name. well_named name \<longrightarrow> st' (get_chunk_key ''tensor'' name) \<noteq> None \<longrightarrow>
                  (\<exists>l. chunk_len ''tensor'' st' name = Some l \<and> l \<le> 4))
            \<and> (\<forall>n1 n2 l1 l2.
                  well_named n1 \<and> well_named n2
                  \<and> chunk_len ''tensor'' st' n1 = Some l1 \<and> l1 < 4
                  \<and> chunk_len ''tensor'' st' n2 = Some l2 \<and> l2 < 4 \<longrightarrow> n1 = n2)"
    using example_write a b c by (intro exI[of _ example_storage] conjI) (rule TrueI | assumption | erule conjunct1 | erule conjunct2)+
  with names_ok_example pos show ?thesis by (intro conjI)
qed

section \<open>Index coverage (C3)\<close>

text \<open>
  C3. After a successful \<open>write_array\<close> of a well-formed array with the default
  flattener, the index map has one entry per sample, and the number of bytes each entry
  covers (the first listed chunk from \<open>start_byte\<close> on, the intermediate chunks in
  full, \<open>end_byte\<close> bytes of the last chunk; \<open>end_byte - start_byte\<close> for a single
  chunk) is the product of the entry's shape times the element size of the array's
  dtype.
\<close>

theorem index_coverage:
  assumes "names_ok uuid" and "0 < chunk_size" and "wf_array A"
    and "write_array uuid A key (st0, c0) chunk_size batched row_wise_to_bytes
           = Inr ((), (st', c'))"
  shows "\<exists>index_map.
           read_index_map key st' = Inr index_map
           \<and> length index_map = (if batched then hd (shape A) else 1)
           \<and> (\<forall>e \<in> set index_map.
                 covered_bytes key st' e
                   = Some (prod_list (entry_shape e) * itemsize (dtype A)))"
proof -
  from write_array_entries[OF assms(1,2,4)] obtain arr n sh im where
    arr: "normalize_and_batchify_shape A batched = Inr arr"
    and sh: "shape arr = n # sh"
    and rd: "read_index_map key st' = Inr im"
    and ok: "list_all2 (entry_ok key chunk_size st') im
               (map row_wise_to_bytes (map (np_getitem arr) [0..<n]))"
    and shp: "map entry_shape im = map shape (map (np_getitem arr) [0..<n])"
    by blast
  from normalize_wf[OF arr assms(3)] have wf: "wf_array arr" and dt: "dtype arr = dtype A"
    and sa: "shape arr = (if batched then shape A else 1 # shape A)" by simp_all
  have len: "length im = n" using ok by (simp add: list_all2_conv_all_nth)
  have "n = hd (shape arr)" using sh by simp
  then have n: "n = (if batched then hd (shape A) else 1)" using sa by simp
  have "\<forall>e \<in> set im. covered_bytes key st' e
                   = Some (prod_list (entry_shape e) * itemsize (dtype A))"
  proof
    fix e assume "e \<in> set im"
    then obtain i where i: "i < n" and e: "e = im ! i" using len by (auto simp: in_set_conv_nth)
    have eo: "entry_ok key chunk_size st' e (row_wise_to_bytes (np_getitem arr i))"
      using ok i e len by (simp add: list_all2_conv_all_nth)
    have "entry_shape e = shape (np_getitem arr i)"
    proof -
      have "map entry_shape im ! i = map shape (map (np_getitem arr) [0..<n]) ! i"
        using shp by simp
      then show ?thesis using i e len by simp
    qed
    then have es: "entry_shape e = sh" using np_getitem_sample(1)[OF wf sh i] by simp
    have "length (row_wise_to_bytes (np_getitem arr i)) = prod_list sh * itemsize (dtype arr)"
      using np_getitem_sample(3)[OF wf sh i] by (simp add: row_wise_to_bytes_def)
    with entry_ok_covered[OF eo] es dt
    show "covered_bytes key st' e = Some (prod_list (entry_shape e) * itemsize (dtype A))"
      by simp
  qed
  with rd len n show ?thesis by blast
qed

theorem index_coverage_witness:
  "names_ok example_uuid \<and> 0 < (4::nat) \<and> wf_array example_array
   \<and> (\<exists>st'. write_array example_uuid example_array ''tensor'' (Map.empty, 0) 4 True
                row_wise_to_bytes = Inr ((), (st', 2))
            \<and> (\<exists>index_map.
                  read_index_map ''tensor'' st' = Inr index_map
                  \<and> length index_map = 2
                  \<and> (\<forall>e \<in> set index_map. covered_bytes ''tensor'' st' e = Some 3)))"
proof -
  have pos: "0 < (4::nat)" by simp
  from index_coverage[OF names_ok_example pos example_wf example_write]
  obtain index_map where
    "read_index_map ''tensor'' example_storage = Inr index_map"
    "length index_map = 2"
    "\<forall>e \<in> set index_map. covered_bytes ''tensor'' example_storage e
        = Some (prod_list (entry_shape e) * itemsize (dtype example_array))"
    by (auto simp: example_array_def)
  moreover from this(1) have "\<forall>e \<in> set index_map. entry_shape e = [3]"
    by (auto simp: read_index_map_def example_storage_def get_index_map_key_def
          INDEX_MAP_FILENAME_def)
  ultimately have "\<exists>index_map.
                  read_index_map ''tensor'' example_storage = Inr index_map
                  \<and> length index_map = 2
                  \<and> (\<forall>e \<in> set index_map. covered_bytes ''tensor'' example_storage e = Some 3)"
    by (auto simp: example_array_def)
  with example_write have "\<exists>st'. write_array example_uuid example_array ''tensor'' (Map.empty, 0) 4 True
                row_wise_to_bytes = Inr ((), (st', 2))
            \<and> (\<exists>index_map.
                  read_index_map ''tensor'' st' = Inr index_map
                  \<and> length index_map = 2
                  \<and> (\<forall>e \<in> set index_map. covered_bytes ''tensor'' st' e = Some 3))"
    by blast
  with names_ok_example pos example_wf show ?thesis by (intro conjI)
qed

section \<open>Consecutive entries (C4)\<close>

text \<open>
  C4. After a successful \<open>write_array\<close>, every index entry lists at least one chunk, and
  for every pair of consecutive entries \<open>i\<close> and \<open>i + 1\<close>: either the first chunk of
  entry \<open>i + 1\<close> is the last chunk of entry \<open>i\<close> and its start byte is the end byte of
  entry \<open>i\<close>, or entry \<open>i + 1\<close> starts at byte 0 of a chunk that no earlier entry
  names.
\<close>

theorem consecutive_entries:
  assumes "names_ok uuid" and "0 < chunk_size"
    and "write_array uuid A key (st0, c0) chunk_size batched to_bytes = Inr ((), (st', c'))"
  shows "\<exists>index_map.
           read_index_map key st' = Inr index_map
           \<and> (\<forall>e \<in> set index_map. chunk_names e \<noteq> [])
           \<and> (\<forall>i. Suc i < length index_map \<longrightarrow>
                 (hd (chunk_names (index_map ! Suc i)) = last (chunk_names (index_map ! i))
                  \<and> start_byte (index_map ! Suc i) = end_byte (index_map ! i))
                 \<or> (start_byte (index_map ! Suc i) = 0
                    \<and> (\<forall>j \<le> i. hd (chunk_names (index_map ! Suc i))
                                 \<notin> set (chunk_names (index_map ! j)))))"
proof -
  from write_array_entries[OF assms] obtain arr n sh im where
    rd: "read_index_map key st' = Inr im"
    and ok: "list_all2 (entry_ok key chunk_size st') im
               (map to_bytes (map (np_getitem arr) [0..<n]))"
    and adj: "adjacent im"
    by blast
  have ne: "\<forall>e \<in> set im. chunk_names e \<noteq> []"
  proof
    fix e assume "e \<in> set im"
    then obtain x where "entry_ok key chunk_size st' e x"
      using ok by (auto simp: list_all2_conv_all_nth in_set_conv_nth)
    then show "chunk_names e \<noteq> []" by (simp add: entry_ok_def)
  qed
  have "\<forall>i. Suc i < length im \<longrightarrow>
                 (hd (chunk_names (im ! Suc i)) = last (chunk_names (im ! i))
                  \<and> start_byte (im ! Suc i) = end_byte (im ! i))
                 \<or> (start_byte (im ! Suc i) = 0
                    \<and> (\<forall>j \<le> i. hd (chunk_names (im ! Suc i)) \<notin> set (chunk_names (im ! j))))"
  proof (intro allI impI)
    fix i assume i: "Suc i < length im"
    with adj have l: "linked (take (Suc i) im) (im ! i) (im ! Suc i)" by (simp add: adjacent_def)
    have "\<And>j. j \<le> i \<Longrightarrow> im ! j \<in> set (take (Suc i) im)"
    proof -
      fix j assume "j \<le> i"
      then have "j < length (take (Suc i) im)" using i by simp
      then have "take (Suc i) im ! j \<in> set (take (Suc i) im)" by (rule nth_mem)
      then show "im ! j \<in> set (take (Suc i) im)" using \<open>j \<le> i\<close> by simp
    qed
    with l show "(hd (chunk_names (im ! Suc i)) = last (chunk_names (im ! i))
                  \<and> start_byte (im ! Suc i) = end_byte (im ! i))
                 \<or> (start_byte (im ! Suc i) = 0
                    \<and> (\<forall>j \<le> i. hd (chunk_names (im ! Suc i)) \<notin> set (chunk_names (im ! j))))"
      unfolding linked_def list_all_iff by blast
  qed
  with rd ne show ?thesis by blast
qed

theorem consecutive_entries_witness:
  "names_ok example_uuid \<and> 0 < (4::nat)
   \<and> (\<exists>st'. write_array example_uuid example_array ''tensor'' (Map.empty, 0) 4 True
                row_wise_to_bytes = Inr ((), (st', 2))
            \<and> (\<exists>index_map.
                  read_index_map ''tensor'' st' = Inr index_map
                  \<and> length index_map = 2
                  \<and> hd (chunk_names (index_map ! 1)) = last (chunk_names (index_map ! 0))
                  \<and> start_byte (index_map ! 1) = end_byte (index_map ! 0)
                  \<and> (\<forall>e \<in> set index_map. chunk_names e \<noteq> [])
                  \<and> (\<forall>i. Suc i < length index_map \<longrightarrow>
                        (hd (chunk_names (index_map ! Suc i)) = last (chunk_names (index_map ! i))
                         \<and> start_byte (index_map ! Suc i) = end_byte (index_map ! i))
                        \<or> (start_byte (index_map ! Suc i) = 0
                           \<and> (\<forall>j \<le> i. hd (chunk_names (index_map ! Suc i))
                                        \<notin> set (chunk_names (index_map ! j)))))))"
proof -
  have pos: "0 < (4::nat)" by simp
  let ?im = "[\<lparr>chunk_names = [''c''], start_byte = 0, end_byte = 3, entry_shape = [3]\<rparr>,
              \<lparr>chunk_names = [''c'', ''cc''], start_byte = 3, end_byte = 2,
                entry_shape = [3]\<rparr>]"
  have rd: "read_index_map ''tensor'' example_storage = Inr ?im"
    by (simp add: read_index_map_def example_storage_def get_index_map_key_def
          INDEX_MAP_FILENAME_def)
  from consecutive_entries[OF names_ok_example pos example_write]
  obtain im where im: "read_index_map ''tensor'' example_storage = Inr im"
    and g: "(\<forall>e \<in> set im. chunk_names e \<noteq> [])
           \<and> (\<forall>i. Suc i < length im \<longrightarrow>
                 (hd (chunk_names (im ! Suc i)) = last (chunk_names (im ! i))
                  \<and> start_byte (im ! Suc i) = end_byte (im ! i))
                 \<or> (start_byte (im ! Suc i) = 0
                    \<and> (\<forall>j \<le> i. hd (chunk_names (im ! Suc i))
                                 \<notin> set (chunk_names (im ! j)))))"
    by blast
  from im rd have eq: "im = ?im" by (simp only: sum.inject)
  have gen: "(\<forall>e \<in> set ?im. chunk_names e \<noteq> [])
           \<and> (\<forall>i. Suc i < length ?im \<longrightarrow>
                 (hd (chunk_names (?im ! Suc i)) = last (chunk_names (?im ! i))
                  \<and> start_byte (?im ! Suc i) = end_byte (?im ! i))
                 \<or> (start_byte (?im ! Suc i) = 0
                    \<and> (\<forall>j \<le> i. hd (chunk_names (?im ! Suc i))
                                 \<notin> set (chunk_names (?im ! j)))))"
    using g unfolding eq .
  have g1: "\<forall>e \<in> set ?im. chunk_names e \<noteq> []" using gen by (rule conjunct1)
  have g2: "\<forall>i. Suc i < length ?im \<longrightarrow>
                 (hd (chunk_names (?im ! Suc i)) = last (chunk_names (?im ! i))
                  \<and> start_byte (?im ! Suc i) = end_byte (?im ! i))
                 \<or> (start_byte (?im ! Suc i) = 0
                    \<and> (\<forall>j \<le> i. hd (chunk_names (?im ! Suc i))
                                 \<notin> set (chunk_names (?im ! j))))"
    using gen by (rule conjunct2)
  have c1: "length ?im = 2" by simp
  have c2: "hd (chunk_names (?im ! 1)) = last (chunk_names (?im ! 0))" by simp
  have c3: "start_byte (?im ! 1) = end_byte (?im ! 0)" by simp
  have "\<exists>index_map.
                  read_index_map ''tensor'' example_storage = Inr index_map
                  \<and> length index_map = 2
                  \<and> hd (chunk_names (index_map ! 1)) = last (chunk_names (index_map ! 0))
                  \<and> start_byte (index_map ! 1) = end_byte (index_map ! 0)
                  \<and> (\<forall>e \<in> set index_map. chunk_names e \<noteq> [])
                  \<and> (\<forall>i. Suc i < length index_map \<longrightarrow>
                        (hd (chunk_names (index_map ! Suc i)) = last (chunk_names (index_map ! i))
                         \<and> start_byte (index_map ! Suc i) = end_byte (index_map ! i))
                        \<or> (start_byte (index_map ! Suc i) = 0
                           \<and> (\<forall>j \<le> i. hd (chunk_names (index_map ! Suc i))
                                        \<notin> set (chunk_names (index_map ! j)))))"
    by (intro exI[of _ ?im] conjI) (fact rd c1 c2 c3 g1 g2)+
  with example_write have "\<exists>st'. write_array example_uuid example_array ''tensor'' (Map.empty, 0) 4 True
                row_wise_to_bytes = Inr ((), (st', 2))
            \<and> (\<exists>index_map.
                  read_index_map ''tensor'' st' = Inr index_map
                  \<and> length index_map = 2
                  \<and> hd (chunk_names (index_map ! 1)) = last (chunk_names (index_map ! 0))
                  \<and> start_byte (index_map ! 1) = end_byte (index_map ! 0)
                  \<and> (\<forall>e \<in> set index_map. chunk_names e \<noteq> [])
                  \<and> (\<forall>i. Suc i < length index_map \<longrightarrow>
                        (hd (chunk_names (index_map ! Suc i)) = last (chunk_names (index_map ! i))
                         \<and> start_byte (index_map ! Suc i) = end_byte (index_map ! i))
                        \<or> (start_byte (index_map ! Suc i) = 0
                           \<and> (\<forall>j \<le> i. hd (chunk_names (index_map ! Suc i))
                                        \<notin> set (chunk_names (index_map ! j))))))"
    by blast
  with names_ok_example pos show ?thesis by (intro conjI)
qed

section \<open>Scenario S2 (C5)\<close>

text \<open>
  C5. With chunk size 4, writing a batch of two samples of three bytes each (a 2x3
  \<open>uint8\<close> array, batched) to a fresh key draws two chunk names and leaves exactly two
  chunks, of 4 and 2 bytes, beside the meta and the index map; the first entry is
  \<open>start_byte = 0\<close>, \<open>end_byte = 3\<close> with the single chunk \<open>c1\<close>, the second is
  \<open>start_byte = 3\<close>, \<open>end_byte = 2\<close> with the chunks \<open>[c1, c2]\<close>; reading either sample, or
  both, returns the original bytes, single-threaded as well as in the default
  multi-threaded mode, there whichever of the two tasks completes first.
\<close>

theorem scenario_S2:
  "\<exists>st. write_array example_uuid
            \<lparr>dtype = UInt8, shape = [2, 3], data = [a1, a2, a3, b1, b2, b3]\<rparr>
            ''tensor'' (Map.empty, 0) 4 True row_wise_to_bytes = Inr ((), (st, 2))
      \<and> dom st = {get_chunk_key ''tensor'' (example_uuid 0),
                   get_chunk_key ''tensor'' (example_uuid 1),
                   get_meta_key ''tensor'', get_index_map_key ''tensor''}
      \<and> st (get_chunk_key ''tensor'' (example_uuid 0)) = Some (Chunk [a1, a2, a3, b1])
      \<and> st (get_chunk_key ''tensor'' (example_uuid 1)) = Some (Chunk [b2, b3])
      \<and> read_index_map ''tensor'' st =
           Inr [\<lparr>chunk_names = [example_uuid 0], start_byte = 0, end_byte = 3,
                  entry_shape = [3]\<rparr>,
                \<lparr>chunk_names = [example_uuid 0, example_uuid 1], start_byte = 3, end_byte = 2,
                  entry_shape = [3]\<rparr>]
      \<and> read_array [] ''tensor'' st \<lparr>sl_start = Some 0, sl_stop = Some 1, sl_step = None\<rparr> False
           = Inr \<lparr>dtype = UInt8, shape = [1, 3], data = [a1, a2, a3]\<rparr>
      \<and> read_array [] ''tensor'' st \<lparr>sl_start = Some 1, sl_stop = Some 2, sl_step = None\<rparr> False
           = Inr \<lparr>dtype = UInt8, shape = [1, 3], data = [b1, b2, b3]\<rparr>
      \<and> read_array [] ''tensor'' st slice_None False
           = Inr \<lparr>dtype = UInt8, shape = [2, 3], data = [a1, a2, a3, b1, b2, b3]\<rparr>
      \<and> read_array [0] ''tensor'' st \<lparr>sl_start = Some 0, sl_stop = Some 1, sl_step = None\<rparr> True
           = Inr \<lparr>dtype = UInt8, shape = [1, 3], data = [a1, a2, a3]\<rparr>
      \<and> read_array [0] ''tensor'' st \<lparr>sl_start = Some 1, sl_stop = Some 2, sl_step = None\<rparr> True
           = Inr \<lparr>dtype = UInt8, shape = [1, 3], data = [b1, b2, b3]\<rparr>
      \<and> read_array [0, 1] ''tensor'' st slice_None True
           = Inr \<lparr>dtype = UInt8, shape = [2, 3], data = [a1, a2, a3, b1, b2, b3]\<rparr>
      \<and> read_array [1, 0] ''tensor'' st slice_None True
           = Inr \<lparr>dtype = UInt8, shape = [2, 3], data = [a1, a2, a3, b1, b2, b3]\<rparr>"
proof -
  let ?st = "[''tensor/chunks/c'' \<mapsto> Chunk [a1, a2, a3, b1],
         ''tensor/chunks/cc'' \<mapsto> Chunk [b2, b3],
         ''tensor/meta.json'' \<mapsto>
           Pickled_meta \<lparr>meta_chunk_size = 4, meta_dtype = ''uint8'', meta_length = 2,
                         min_shape = [3], max_shape = [3]\<rparr>,
         ''tensor/index_map.json'' \<mapsto>
           Pickled_index_map
             [\<lparr>chunk_names = [''c''], start_byte = 0, end_byte = 3, entry_shape = [3]\<rparr>,
              \<lparr>chunk_names = [''c'', ''cc''], start_byte = 3, end_byte = 2,
                entry_shape = [3]\<rparr>]]"
  have w: "write_array example_uuid
            \<lparr>dtype = UInt8, shape = [2, 3], data = [a1, a2, a3, b1, b2, b3]\<rparr>
            ''tensor'' (Map.empty, 0) 4 True row_wise_to_bytes = Inr ((), (?st, 2))"
    by (rule scenario_S2_write)
  have d: "dom ?st = {get_chunk_key ''tensor'' (example_uuid 0),
                   get_chunk_key ''tensor'' (example_uuid 1),
                   get_meta_key ''tensor'', get_index_map_key ''tensor''}"
    by (auto simp: read_eval)
  have c1: "?st (get_chunk_key ''tensor'' (example_uuid 0)) = Some (Chunk [a1, a2, a3, b1])"
    by (simp add: read_eval)
  have c2: "?st (get_chunk_key ''tensor'' (example_uuid 1)) = Some (Chunk [b2, b3])"
    by (simp add: read_eval)
  have im: "read_index_map ''tensor'' ?st =
           Inr [\<lparr>chunk_names = [example_uuid 0], start_byte = 0, end_byte = 3,
                  entry_shape = [3]\<rparr>,
                \<lparr>chunk_names = [example_uuid 0, example_uuid 1], start_byte = 3, end_byte = 2,
                  entry_shape = [3]\<rparr>]"
    by (simp add: read_eval)
  have r1: "read_array [] ''tensor'' ?st \<lparr>sl_start = Some 0, sl_stop = Some 1, sl_step = None\<rparr> False
           = Inr \<lparr>dtype = UInt8, shape = [1, 3], data = [a1, a2, a3]\<rparr>"
    by (simp add: read_eval clamp_index_def)
  have r2: "read_array [] ''tensor'' ?st \<lparr>sl_start = Some 1, sl_stop = Some 2, sl_step = None\<rparr> False
           = Inr \<lparr>dtype = UInt8, shape = [1, 3], data = [b1, b2, b3]\<rparr>"
    by (simp add: read_eval clamp_index_def)
  have r: "read_array [] ''tensor'' ?st slice_None False
           = Inr \<lparr>dtype = UInt8, shape = [2, 3], data = [a1, a2, a3, b1, b2, b3]\<rparr>"
    by (rule scenario_S2_read)
  have m1: "read_array [0] ''tensor'' ?st \<lparr>sl_start = Some 0, sl_stop = Some 1, sl_step = None\<rparr> True
           = Inr \<lparr>dtype = UInt8, shape = [1, 3], data = [a1, a2, a3]\<rparr>"
    by (simp add: read_eval clamp_index_def)
  have m2: "read_array [0] ''tensor'' ?st \<lparr>sl_start = Some 1, sl_stop = Some 2, sl_step = None\<rparr> True
           = Inr \<lparr>dtype = UInt8, shape = [1, 3], data = [b1, b2, b3]\<rparr>"
    by (simp add: read_eval clamp_index_def)
  have m01: "read_array [0, 1] ''tensor'' ?st slice_None True
           = Inr \<lparr>dtype = UInt8, shape = [2, 3], data = [a1, a2, a3, b1, b2, b3]\<rparr>"
    by (simp add: read_eval)
  have m10: "read_array [1, 0] ''tensor'' ?st slice_None True
           = Inr \<lparr>dtype = UInt8, shape = [2, 3], data = [a1, a2, a3, b1, b2, b3]\<rparr>"
    by (simp add: read_eval)
  show ?thesis
    by (intro exI[of _ ?st] conjI) (fact w d c1 c2 im r1 r2 r m1 m2 m01 m10)+
qed

theorem scenario_S2_witness:
  "\<exists>st. write_array example_uuid example_array ''tensor'' (Map.empty, 0) 4 True
           row_wise_to_bytes = Inr ((), (st, 2))
      \<and> st (get_chunk_key ''tensor'' (example_uuid 0)) = Some (Chunk [1, 2, 3, 4])
      \<and> st (get_chunk_key ''tensor'' (example_uuid 1)) = Some (Chunk [5, 6])
      \<and> read_array [] ''tensor'' st slice_None False = Inr example_array
      \<and> read_array [0, 1] ''tensor'' st slice_None True = Inr example_array
      \<and> read_array [1, 0] ''tensor'' st slice_None True = Inr example_array"
  using scenario_S2[of 1 2 3 4 5 6] unfolding example_array_def by blast

section \<open>Refusing to overwrite (C6)\<close>

lemma write_bytes_errors:
  "write_bytes uuid b key cs w im = Inl (e, w')
   \<Longrightarrow> e = IndexError \<or> e = KeyError \<or> e = TypeError \<or> e = UnboundLocalError"
proof -
  assume a: "write_bytes uuid b key cs w im = Inl (e, w')"
  have loop: "\<And>v r. write_chunks uuid key cs im sl v = Inl (x, r) \<Longrightarrow> x = IndexError" for sl x
  proof (induction sl)
    case Nil
    then show ?case by simp
  next
    case (Cons c sl)
    then show ?case
      by (auto simp: write_chunk_def Let_def split: sum.splits if_splits)
  qed
  show ?thesis
  proof (cases "get_last_chunk key im (fst w)")
    case (Inl x)
    then have "x = IndexError \<or> x = KeyError \<or> x = TypeError"
      by (auto simp: get_last_chunk_def read_chunk_def
            split: if_splits list.splits sum.splits option.splits blob.splits)
    moreover from a Inl have "x = e" by (simp add: write_bytes_def)
    ultimately show ?thesis by blast
  next
    case (Inr p)
    obtain name chunk where p: "p = (name, chunk)" by (cases p)
    from a Inr p loop show ?thesis
      by (auto simp: write_bytes_def Let_def split: sum.splits option.splits)
  qed
qed

lemma write_samples_errors:
  "write_samples uuid samples key cs w im to_bytes = Inl (e, w')
   \<Longrightarrow> e = IndexError \<or> e = KeyError \<or> e = TypeError \<or> e = UnboundLocalError"
proof (induction samples arbitrary: w im)
  case Nil
  then show ?case by simp
next
  case (Cons s samples)
  show ?case
  proof (cases "write_sample uuid s key cs w im to_bytes")
    case (Inl x)
    with Cons.prems have x: "x = (e, w')" by simp
    from Inl x obtain "write_bytes uuid (to_bytes s) key cs w im = Inl (e, w')"
      by (auto simp: write_sample_def split: sum.splits)
    then show ?thesis by (rule write_bytes_errors)
  next
    case (Inr r)
    obtain im1 w1 where r: "r = (im1, w1)" by (cases r)
    from Cons.prems Inr r have "write_samples uuid samples key cs w1 im1 to_bytes = Inl (e, w')"
      by simp
    then show ?thesis by (rule Cons.IH)
  qed
qed

text \<open>
  C6. For an array that passes the normalisation step, \<open>write_array\<close> ends with the
  "appending is not supported" error exactly when the meta key or the index-map key of
  the target key is in the storage; the check comes before any write, so the error
  leaves the storage (and the name count) as they were.
\<close>

theorem write_array_already_exists:
  assumes "normalize_and_batchify_shape A batched = Inr arr"
  shows "((\<exists>w'. write_array uuid A key w chunk_size batched to_bytes = Inl (already_exists, w'))
           = (fst w (get_meta_key key) \<noteq> None \<or> fst w (get_index_map_key key) \<noteq> None))
       \<and> (\<forall>w'. write_array uuid A key w chunk_size batched to_bytes = Inl (already_exists, w')
              \<longrightarrow> w' = w)"
proof (cases "fst w (get_meta_key key) \<noteq> None \<or> fst w (get_index_map_key key) \<noteq> None")
  case True
  then have "write_array uuid A key w chunk_size batched to_bytes = Inl (already_exists, w)"
    using assms by (simp add: write_array_def)
  with True show ?thesis by simp
next
  case False
  have "write_array uuid A key w chunk_size batched to_bytes \<noteq> Inl (already_exists, w')" for w'
  proof
    assume a: "write_array uuid A key w chunk_size batched to_bytes = Inl (already_exists, w')"
    show False
    proof (cases "shape arr")
      case Nil
      with a assms False show False by (simp add: write_array_def already_exists_def)
    next
      case (Cons n sh)
      with a assms False
      have "write_samples uuid (map (np_getitem arr) [0..<n]) key chunk_size w [] to_bytes
              = Inl (already_exists, w')"
        by (auto simp: write_array_def Let_def split: sum.splits)
      from write_samples_errors[OF this] show False by (simp add: already_exists_def)
    qed
  qed
  with False show ?thesis by simp
qed

theorem write_array_already_exists_witness:
  "normalize_and_batchify_shape example_array True = Inr example_array
   \<and> fst (example_storage, 2::nat) (get_meta_key ''tensor'') \<noteq> None
   \<and> write_array example_uuid example_array ''tensor'' (example_storage, 2) 4 True
        row_wise_to_bytes = Inl (already_exists, (example_storage, 2))"
proof -
  have n: "normalize_and_batchify_shape example_array True = Inr example_array"
    by (simp add: normalize_and_batchify_shape_def example_array_def)
  have m: "fst (example_storage, 2::nat) (get_meta_key ''tensor'') \<noteq> None"
    by (simp add: example_storage_def get_meta_key_def META_FILENAME_def)
  from write_array_already_exists[OF n, where uuid = example_uuid and key = "''tensor''"
      and w = "(example_storage, 2)" and chunk_size = 4 and to_bytes = row_wise_to_bytes] m
  have "write_array example_uuid example_array ''tensor'' (example_storage, 2) 4 True
          row_wise_to_bytes = Inl (already_exists, (example_storage, 2))"
    by blast
  with n m show ?thesis by (intro conjI)
qed

section \<open>Round trip: where the writer fails (C1)\<close>

text \<open>
  C1 (the code departs from it). An array with at least one sample whose samples hold no
  element (some axis after the first has length 0) is a numeric array of rank at least
  1, but writing it to a fresh key does not succeed: the splitter yields no slice for
  the empty payload, the loop body of \<open>_write_bytes\<close> never runs, and reading the unbound
  \<open>end_byte\<close> raises. Nothing is written.
\<close>

theorem write_array_empty_samples:
  assumes "shape A = n # sh" and "0 < n" and "wf_array A" and "prod_list sh = 0"
    and "fst w (get_meta_key key) = None" and "fst w (get_index_map_key key) = None"
  shows "write_array uuid A key w chunk_size True row_wise_to_bytes
           = Inl (UnboundLocalError, w)"
proof -
  have norm: "normalize_and_batchify_shape A True = Inr A"
    using assms(1) by (simp add: normalize_and_batchify_shape_def)
  obtain m where n: "n = Suc m" using assms(2) by (cases n) simp_all
  have samples: "map (np_getitem A) [0..<n] = np_getitem A 0 # map (np_getitem A) [Suc 0..<n]"
    unfolding n by (simp add: upt_conv_Cons del: upt_Suc)
  have "length (data (np_getitem A 0)) = prod_list sh * itemsize (dtype A)"
    using assms(3) assms(1) assms(2) by (rule np_getitem_sample(3))
  then have empty: "row_wise_to_bytes (np_getitem A 0) = []"
    using assms(4) by (simp add: row_wise_to_bytes_def)
  have wb: "write_bytes uuid [] key chunk_size w [] = Inl (UnboundLocalError, w)"
    by (simp add: write_bytes_def get_last_chunk_def generate_chunks_def Let_def)
  have "write_sample uuid (np_getitem A 0) key chunk_size w [] row_wise_to_bytes
          = Inl (UnboundLocalError, w)"
    by (simp add: write_sample_def empty wb)
  then have "write_samples uuid (map (np_getitem A) [0..<n]) key chunk_size w []
               row_wise_to_bytes = Inl (UnboundLocalError, w)"
    unfolding samples by simp
  then show ?thesis
    using norm assms(1,5,6) by (simp add: write_array_def Let_def)
qed

theorem write_array_empty_samples_witness:
  "shape \<lparr>dtype = UInt8, shape = [2, 0], data = []\<rparr> = [2, 0] \<and> 0 < (2::nat)
   \<and> wf_array \<lparr>dtype = UInt8, shape = [2, 0], data = []\<rparr> \<and> prod_list [0::nat] = 0
   \<and> write_array example_uuid \<lparr>dtype = UInt8, shape = [2, 0], data = []\<rparr> ''tensor''
        (Map.empty, 0) 4 True row_wise_to_bytes = Inl (UnboundLocalError, (Map.empty, 0))"
proof -
  let ?A = "\<lparr>dtype = UInt8, shape = [2, 0], data = []\<rparr>"
  have s: "shape ?A = [2, 0]" by simp
  have p: "0 < (2::nat)" by simp
  have wf: "wf_array ?A" by (simp add: wf_array_def)
  have z: "prod_list [0::nat] = 0" by simp
  have m: "fst (Map.empty :: storage, 0::nat) (get_meta_key ''tensor'') = None" by simp
  have i: "fst (Map.empty :: storage, 0::nat) (get_index_map_key ''tensor'') = None" by simp
  from write_array_empty_samples[OF s p wf z m i, of example_uuid 4]
  have "write_array example_uuid ?A ''tensor'' (Map.empty, 0) 4 True row_wise_to_bytes
          = Inl (UnboundLocalError, (Map.empty, 0))" .
  with s p wf z show ?thesis by (intro conjI)
qed

section \<open>Parallel reads: where placement depends on completion order (C7)\<close>

text \<open>
  C7 (the code departs from it). Three one-byte samples are written and read back. The
  single-threaded read returns them in order. In the parallel read every task ends with
  \<open>samples.insert(index, ...)\<close> on the shared list, and an index past the end of the
  list appends: when the tasks complete in the order 2, 1, 0 the result is the samples
  in the order 0, 2, 1, which is not the single-threaded result whenever the last two
  samples differ. When the tasks complete in slice order the two results agree.
\<close>

theorem parallel_read_order:
  "\<exists>st. write_array example_uuid \<lparr>dtype = UInt8, shape = [3, 1], data = [x, y, z]\<rparr>
           ''tensor'' (Map.empty, 0) 4 True row_wise_to_bytes = Inr ((), (st, 1))
      \<and> read_array [] ''tensor'' st slice_None False
           = Inr \<lparr>dtype = UInt8, shape = [3, 1], data = [x, y, z]\<rparr>
      \<and> read_array [0, 1, 2] ''tensor'' st slice_None True
           = Inr \<lparr>dtype = UInt8, shape = [3, 1], data = [x, y, z]\<rparr>
      \<and> read_array [2, 1, 0] ''tensor'' st slice_None True
           = Inr \<lparr>dtype = UInt8, shape = [3, 1], data = [x, z, y]\<rparr>"
proof -
  let ?st = "[''tensor/chunks/c'' \<mapsto> Chunk [x, y, z],
         ''tensor/meta.json'' \<mapsto>
           Pickled_meta \<lparr>meta_chunk_size = 4, meta_dtype = ''uint8'', meta_length = 3,
                         min_shape = [1], max_shape = [1]\<rparr>,
         ''tensor/index_map.json'' \<mapsto>
           Pickled_index_map
             [\<lparr>chunk_names = [''c''], start_byte = 0, end_byte = 1, entry_shape = [1]\<rparr>,
              \<lparr>chunk_names = [''c''], start_byte = 1, end_byte = 2, entry_shape = [1]\<rparr>,
              \<lparr>chunk_names = [''c''], start_byte = 2, end_byte = 3, entry_shape = [1]\<rparr>]]"
  have w: "write_array example_uuid \<lparr>dtype = UInt8, shape = [3, 1], data = [x, y, z]\<rparr>
           ''tensor'' (Map.empty, 0) 4 True row_wise_to_bytes = Inr ((), (?st, 1))"
    by (simp add: write_eval eval_nat_numeral)
  have r0: "read_array [] ''tensor'' ?st slice_None False
           = Inr \<lparr>dtype = UInt8, shape = [3, 1], data = [x, y, z]\<rparr>"
    by (simp add: read_eval)
  have r1: "read_array [0, 1, 2] ''tensor'' ?st slice_None True
           = Inr \<lparr>dtype = UInt8, shape = [3, 1], data = [x, y, z]\<rparr>"
    by (simp add: read_eval)
  have r2: "read_array [2, 1, 0] ''tensor'' ?st slice_None True
           = Inr \<lparr>dtype = UInt8, shape = [3, 1], data = [x, z, y]\<rparr>"
    by (simp add: read_eval)
  show ?thesis by (intro exI[of _ ?st] conjI) (fact w r0 r1 r2)+
qed

theorem parallel_read_order_witness:
  "\<exists>st. write_array example_uuid \<lparr>dtype = UInt8, shape = [3, 1], data = [1, 2, 3]\<rparr>
           ''tensor'' (Map.empty, 0) 4 True row_wise_to_bytes = Inr ((), (st, 1))
      \<and> read_array [] ''tensor'' st slice_None False
           = Inr \<lparr>dtype = UInt8, shape = [3, 1], data = [1, 2, 3]\<rparr>
      \<and> read_array [2, 1, 0] ''tensor'' st slice_None True
           = Inr \<lparr>dtype = UInt8, shape = [3, 1], data = [1, 3, 2]\<rparr>
      \<and> read_array [2, 1, 0] ''tensor'' st slice_None True
           \<noteq> read_array [] ''tensor'' st slice_None False"
proof -
  from parallel_read_order[of 1 2 3] obtain st where
    w: "write_array example_uuid \<lparr>dtype = UInt8, shape = [3, 1], data = [1, 2, 3]\<rparr>
           ''tensor'' (Map.empty, 0) 4 True row_wise_to_bytes = Inr ((), (st, 1))"
    and r0: "read_array [] ''tensor'' st slice_None False
           = Inr \<lparr>dtype = UInt8, shape = [3, 1], data = [1, 2, 3]\<rparr>"
    and r2: "read_array [2, 1, 0] ''tensor'' st slice_None True
           = Inr \<lparr>dtype = UInt8, shape = [3, 1], data = [1, 3, 2]\<rparr>"
    by blast
  have "read_array [2, 1, 0] ''tensor'' st slice_None True
           \<noteq> read_array [] ''tensor'' st slice_None False"
    unfolding r0 r2 by simp
  with w r0 r2 show ?thesis by blast
qed

section \<open>Python slices\<close>

lemma py_getslice_None: "py_getslice xs slice_None = Inr xs"
proof -
  have r: "py_range 0 (int (length xs)) 1 = map int [0..<length xs]"
    by (cases "length xs = 0") (simp_all add: py_range_def)
  have "map (\<lambda>i. xs ! nat i) (map int [0..<length xs]) = map ((!) xs) [0..<length xs]"
    by simp
  also have "\<dots> = xs" by (rule map_nth)
  finally show ?thesis
    by (simp add: py_getslice_def slice_indices_def slice_None_def r del: map_map)
qed

lemma py_range_unit: "b - a \<le> 1 \<Longrightarrow> length (py_range a b 1) \<le> 1"
  unfolding py_range_def by (simp add: Let_def) arith

lemma py_getslice_one:
  assumes "py_getslice ys \<lparr>sl_start = Some i, sl_stop = Some (i + 1), sl_step = None\<rparr> = Inr zs"
  shows "length zs \<le> 1"
proof -
  let ?n = "int (length ys)"
  let ?a = "clamp_index i ?n 0 ?n"
  let ?b = "clamp_index (i + 1) ?n 0 ?n"
  have zs: "zs = map (\<lambda>j. ys ! nat j) (py_range ?a ?b 1)"
    using assms by (auto simp: py_getslice_def slice_indices_def Let_def)
  have "?b - ?a \<le> 1" by (auto simp: clamp_index_def)
  then have "length (py_range ?a ?b 1) \<le> 1" by (rule py_range_unit)
  with zs show ?thesis by simp
qed

lemma composes_index_not_None:
  assumes "composes merge_slices s \<lparr>sl_start = Some i, sl_stop = Some (i + 1), sl_step = None\<rparr>"
  shows "merge_slices s \<lparr>sl_start = Some i, sl_stop = Some (i + 1), sl_step = None\<rparr> \<noteq> slice_None"
proof
  let ?s2 = "\<lparr>sl_start = Some i, sl_stop = Some (i + 1), sl_step = None\<rparr>"
  assume eq: "merge_slices s ?s2 = slice_None"
  from assms have c: "py_getslice [0, 1 :: nat] (merge_slices s ?s2) =
          (case py_getslice [0, 1] s of Inl e \<Rightarrow> Inl e | Inr ys \<Rightarrow> py_getslice ys ?s2)"
    unfolding composes_def by blast
  have l: "py_getslice [0, 1 :: nat] (merge_slices s ?s2) = Inr [0, 1]"
    unfolding eq by (rule py_getslice_None)
  show False
  proof (cases "py_getslice [0, 1 :: nat] s")
    case (Inl e)
    with c l show False by simp
  next
    case (Inr ys)
    with c l have "py_getslice ys ?s2 = Inr [0, 1]" by simp
    from py_getslice_one[OF this] show False by simp
  qed
qed

section \<open>Assignment through a tensor view (C9, C10)\<close>

lemma write_array_exists_fails:
  "fst w (get_meta_key key) \<noteq> None \<or> fst w (get_index_map_key key) \<noteq> None
   \<Longrightarrow> \<exists>e. write_array uuid A key w cs batched to_bytes = Inl (e, w)"
  by (auto simp: write_array_def split: sum.splits)

lemma read_tensor_meta_present:
  "read_tensor_meta key st = Inr meta \<Longrightarrow> st (get_meta_key key) \<noteq> None"
  by (auto simp: read_tensor_meta_def split: option.splits)

lemma Tensor_setitem_sliced:
  assumes "read_tensor_meta (t_key t) (fst w) = Inr meta"
    and "merge_slices (t_slice t) (item_slice item) \<noteq> slice_None"
  shows "Tensor_setitem merge_slices uuid t w item v = Inl (unsupported_assignment, w)"
  using assms by (simp add: Tensor_setitem_def Tensor_getitem_def Tensor_init_def)

lemma Tensor_setitem_fails:
  "\<exists>e w'. Tensor_setitem merge_slices uuid t w item v = Inl (e, w')"
proof (cases "read_tensor_meta (t_key t) (fst w)")
  case (Inl e)
  then show ?thesis by (simp add: Tensor_setitem_def Tensor_getitem_def Tensor_init_def)
next
  case (Inr meta)
  show ?thesis
  proof (cases "merge_slices (t_slice t) (item_slice item) = slice_None")
    case False
    with Inr show ?thesis by (simp add: Tensor_setitem_sliced)
  next
    case True
    from read_tensor_meta_present[OF Inr]
    have "\<exists>e. write_array uuid v (t_key t) w DEFAULT_CHUNK_SIZE True row_wise_to_bytes = Inl (e, w)"
      by (intro write_array_exists_fails) simp
    then obtain e where
      "write_array uuid v (t_key t) w DEFAULT_CHUNK_SIZE True row_wise_to_bytes = Inl (e, w)"
      by blast
    with Inr True show ?thesis
      by (simp add: Tensor_setitem_def Tensor_getitem_def Tensor_init_def)
  qed
qed

lemma Tensor_setitem_sliced_frame:
  assumes "merge_slices (t_slice t) (item_slice item) \<noteq> slice_None"
    and "Tensor_setitem merge_slices uuid t w item v = Inl (e, w')"
  shows "w' = w"
  using assms
  by (auto simp: Tensor_setitem_def Tensor_getitem_def Tensor_init_def split: sum.splits)

text \<open>
  C9. An assignment through a tensor view does not succeed when the view's composed
  slice is restricted, or when the target tensor is already in the storage (its meta key
  or its index-map key is present); through a view whose meta is readable and whose
  composed slice is restricted it fails with the unsupported-assignment error, and an
  assignment with a restricted composed slice leaves the storage as it was whatever the
  error.
\<close>

theorem tensor_assignment:
  "((merge_slices (t_slice t) (item_slice item) \<noteq> slice_None
       \<or> fst w (get_meta_key (t_key t)) \<noteq> None
       \<or> fst w (get_index_map_key (t_key t)) \<noteq> None)
      \<longrightarrow> (\<forall>r. Tensor_setitem merge_slices uuid t w item v \<noteq> Inr r))
   \<and> (\<forall>meta. read_tensor_meta (t_key t) (fst w) = Inr meta
          \<and> merge_slices (t_slice t) (item_slice item) \<noteq> slice_None
        \<longrightarrow> Tensor_setitem merge_slices uuid t w item v = Inl (unsupported_assignment, w))
   \<and> (\<forall>e w'. merge_slices (t_slice t) (item_slice item) \<noteq> slice_None
          \<and> Tensor_setitem merge_slices uuid t w item v = Inl (e, w')
        \<longrightarrow> w' = w)"
proof (intro conjI allI impI)
  fix r
  from Tensor_setitem_fails[of merge_slices uuid t w item v]
  show "Tensor_setitem merge_slices uuid t w item v \<noteq> Inr r" by auto
next
  fix meta
  assume "read_tensor_meta (t_key t) (fst w) = Inr meta
          \<and> merge_slices (t_slice t) (item_slice item) \<noteq> slice_None"
  then show "Tensor_setitem merge_slices uuid t w item v = Inl (unsupported_assignment, w)"
    by (simp add: Tensor_setitem_sliced)
next
  fix e w'
  assume "merge_slices (t_slice t) (item_slice item) \<noteq> slice_None
          \<and> Tensor_setitem merge_slices uuid t w item v = Inl (e, w')"
  then show "w' = w" using Tensor_setitem_sliced_frame by blast
qed

lemma example_meta:
  "read_tensor_meta ''tensor'' example_storage =
     Inr \<lparr>meta_chunk_size = 4, meta_dtype = ''uint8'', meta_length = 2,
          min_shape = [3], max_shape = [3]\<rparr>"
  by (simp add: read_tensor_meta_def example_storage_def get_meta_key_def META_FILENAME_def)

lemma example_composes: "composes example_merge slice_None s"
  by (simp add: composes_def example_merge_def py_getslice_None)

theorem tensor_assignment_witness:
  "example_merge (t_slice example_tensor)
       (item_slice (Slice \<lparr>sl_start = Some 0, sl_stop = Some 1, sl_step = None\<rparr>)) \<noteq> slice_None
   \<and> read_tensor_meta (t_key example_tensor) (fst (example_storage, 2::nat)) =
        Inr \<lparr>meta_chunk_size = 4, meta_dtype = ''uint8'', meta_length = 2,
             min_shape = [3], max_shape = [3]\<rparr>
   \<and> Tensor_setitem example_merge example_uuid example_tensor (example_storage, 2)
        (Slice \<lparr>sl_start = Some 0, sl_stop = Some 1, sl_step = None\<rparr>) example_array
        = Inl (unsupported_assignment, (example_storage, 2))
   \<and> fst (example_storage, 2::nat) (get_meta_key (t_key example_tensor)) \<noteq> None
   \<and> (\<exists>e. Tensor_setitem example_merge example_uuid example_tensor (example_storage, 2)
            (Slice slice_None) example_array = Inl (e, (example_storage, 2)))"
proof -
  let ?s = "\<lparr>sl_start = Some 0, sl_stop = Some 1, sl_step = None\<rparr>"
  let ?w = "(example_storage, 2::nat)"
  have a: "example_merge (t_slice example_tensor) (item_slice (Slice ?s)) \<noteq> slice_None"
    by (simp add: example_merge_def example_tensor_def item_slice_def slice_None_def)
  have b: "read_tensor_meta (t_key example_tensor) (fst ?w) =
        Inr \<lparr>meta_chunk_size = 4, meta_dtype = ''uint8'', meta_length = 2,
             min_shape = [3], max_shape = [3]\<rparr>"
    using example_meta by (simp add: example_tensor_def)
  note ta = tensor_assignment[where merge_slices = example_merge and t = example_tensor
      and w = ?w and uuid = example_uuid and v = example_array]
  from ta[where item = "Slice ?s"] a b
  have c: "Tensor_setitem example_merge example_uuid example_tensor ?w (Slice ?s) example_array
        = Inl (unsupported_assignment, ?w)"
    by blast
  have d: "fst ?w (get_meta_key (t_key example_tensor)) \<noteq> None"
    using b by (rule read_tensor_meta_present)
  from ta[where item = "Slice slice_None"] d
  have nr: "\<forall>r. Tensor_setitem example_merge example_uuid example_tensor ?w
            (Slice slice_None) example_array \<noteq> Inr r"
    by blast
  have "\<exists>e. Tensor_setitem example_merge example_uuid example_tensor ?w
            (Slice slice_None) example_array = Inl (e, ?w)"
  proof (cases "Tensor_setitem example_merge example_uuid example_tensor ?w
            (Slice slice_None) example_array")
    case (Inl p)
    obtain e w' where p: "p = (e, w')" by (cases p)
    have "write_array example_uuid example_array ''tensor'' ?w DEFAULT_CHUNK_SIZE True
            row_wise_to_bytes = Inl (already_exists, ?w)"
      using d by (simp add: write_array_def normalize_and_batchify_shape_def example_array_def
            example_tensor_def)
    with Inl p b have "w' = ?w"
      by (auto simp: Tensor_setitem_def Tensor_getitem_def Tensor_init_def example_tensor_def
            example_merge_def item_slice_def split: if_splits)
    with Inl p show ?thesis by simp
  next
    case (Inr r)
    with nr show ?thesis by simp
  qed
  with a b c d show ?thesis by (intro conjI)
qed


lemma write_array_not_unsupported:
  "write_array uuid A key w cs batched to_bytes \<noteq> Inl (unsupported_assignment, w')"
proof
  assume a: "write_array uuid A key w cs batched to_bytes = Inl (unsupported_assignment, w')"
  show False
  proof (cases "normalize_and_batchify_shape A batched")
    case (Inl e)
    then have "e = ValueError"
      by (auto simp: normalize_and_batchify_shape_def split: if_splits)
    with a Inl show False by (simp add: write_array_def unsupported_assignment_def)
  next
    case (Inr arr)
    show False
    proof (cases "fst w (get_meta_key key) \<noteq> None \<or> fst w (get_index_map_key key) \<noteq> None")
      case True
      with a Inr show False
        by (simp add: write_array_def unsupported_assignment_def already_exists_def)
    next
      case False
      show False
      proof (cases "shape arr")
        case Nil
        with a Inr False show False by (simp add: write_array_def unsupported_assignment_def)
      next
        case (Cons n sh)
        with a Inr False
        have "write_samples uuid (map (np_getitem arr) [0..<n]) key cs w [] to_bytes
                = Inl (unsupported_assignment, w')"
          by (auto simp: write_array_def Let_def split: sum.splits)
        from write_samples_errors[OF this] show False by (simp add: unsupported_assignment_def)
      qed
    qed
  qed
qed

lemma Tensor_setitem_unsliced:
  assumes "read_tensor_meta (t_key t) (fst w) = Inr meta"
    and "merge_slices (t_slice t) (item_slice item) = slice_None"
  shows "Tensor_setitem merge_slices uuid t w item v \<noteq> Inl (unsupported_assignment, w)"
proof -
  from read_tensor_meta_present[OF assms(1)]
  have "\<exists>e. write_array uuid v (t_key t) w DEFAULT_CHUNK_SIZE True row_wise_to_bytes = Inl (e, w)"
    by (intro write_array_exists_fails) simp
  then obtain e where
    e: "write_array uuid v (t_key t) w DEFAULT_CHUNK_SIZE True row_wise_to_bytes = Inl (e, w)"
    by blast
  then have "e \<noteq> unsupported_assignment"
    using write_array_not_unsupported[of uuid v "t_key t" w DEFAULT_CHUNK_SIZE True
        row_wise_to_bytes w] by auto
  with e assms show ?thesis
    by (simp add: Tensor_setitem_def Tensor_getitem_def Tensor_init_def)
qed


text \<open>
  What the assignment check needs of \<open>merge_slices\<close>, which is not among the sources, is
  that it returns \<open>slice(None)\<close> for no other arguments than two \<open>slice(None)\<close>. The need
  is exact: for a
  merge that returns \<open>slice(None)\<close> on other arguments, an assignment through a sliced view
  or with another subscript than \<open>[:]\<close> gets past the check.
\<close>

lemma merge_None_passes_check:
  assumes "merge_slices s1 s2 = slice_None"
    and "read_tensor_meta key (fst w) = Inr meta"
  shows "Tensor_setitem merge_slices uuid
           \<lparr>t_key = key, t_slice = s1, num_samples = n, t_shape = sh\<rparr> w (Slice s2) v
         \<noteq> Inl (unsupported_assignment, w)"
  using assms by (intro Tensor_setitem_unsliced[where meta = meta]) (simp_all add: item_slice_def)

text \<open>Where a merge composes the view's slice with \<open>slice(i, i + 1)\<close>, as the spec asks of
  it, the assignment \<open>t[i] = v\<close> is refused on that ground alone.\<close>

lemma integer_assignment_composed:
  assumes "composes merge_slices (t_slice t) (item_slice (Index i))"
    and "read_tensor_meta (t_key t) (fst w) = Inr meta"
  shows "Tensor_setitem merge_slices uuid t w (Index i) v = Inl (unsupported_assignment, w)"
proof -
  have "merge_slices (t_slice t) (item_slice (Index i)) \<noteq> slice_None"
    using assms(1) unfolding item_slice_def subscript.case by (rule composes_index_not_None)
  with assms(2) show ?thesis by (rule Tensor_setitem_sliced)
qed




section \<open>The LRU budget (C8)\<close>

lemma sum_without_key:
  fixes xs :: "('a \<times> nat) list"
  shows "distinct (map fst xs) \<Longrightarrow> map_of xs k = Some s
   \<Longrightarrow> sum_list (map snd (filter (\<lambda>p. fst p \<noteq> k) xs)) + s = sum_list (map snd xs)"
proof (induction xs)
  case Nil
  then show ?case by simp
next
  case (Cons p xs)
  obtain k' s' where p: "p = (k', s')" by (cases p)
  show ?case
  proof (cases "k' = k")
    case True
    with Cons.prems p have s: "s' = s" and notin: "k \<notin> fst ` set xs" by auto
    then have "filter (\<lambda>p. fst p \<noteq> k) xs = xs" by (auto simp: filter_id_conv)
    with p True s show ?thesis by simp
  next
    case False
    with Cons.prems p have "map_of xs k = Some s" "distinct (map fst xs)" by auto
    from Cons.IH[OF this(2) this(1)] p False show ?thesis by simp
  qed
qed

lemma filter_key_absent:
  "map_of xs k = None \<Longrightarrow> filter (\<lambda>p. fst p \<noteq> k) xs = xs"
  by (induction xs) (auto split: if_splits)

lemma lru_invD:
  assumes "lru_inv c"
  shows "distinct (map fst (lru_sizes c))"
    and "cache_used c = sum_list (map snd (lru_sizes c))"
    and "cache_used c \<le> cache_size c
         \<or> (length (lru_sizes c) = 1 \<and> cache_size c < snd (hd (lru_sizes c)))"
  using assms unfolding lru_inv_def by blast+

lemma lru_inv_other_fields [simp]:
  "lru_inv (c\<lparr>dirty_keys := dk\<rparr>) = lru_inv c"
  "lru_inv (c\<lparr>next_storage := ns\<rparr>) = lru_inv c"
  "lru_inv (c\<lparr>cache_storage := cs\<rparr>) = lru_inv c"
  by (simp_all add: lru_inv_def)

lemma pop_from_cache_props:
  assumes "lru_sizes c \<noteq> []" and "distinct (map fst (lru_sizes c))"
    and "cache_used c = sum_list (map snd (lru_sizes c))"
  shows "distinct (map fst (lru_sizes (pop_from_cache c)))"
    and "cache_used (pop_from_cache c) = sum_list (map snd (lru_sizes (pop_from_cache c)))"
    and "cache_size (pop_from_cache c) = cache_size c"
    and "set (lru_sizes (pop_from_cache c)) \<subseteq> set (lru_sizes c)"
proof -
  obtain k s where l: "last (lru_sizes c) = (k, s)" by (cases "last (lru_sizes c)")
  have sp: "lru_sizes c = butlast (lru_sizes c) @ [(k, s)]" using assms(1) l by (metis append_butlast_last_id)
  then have rv: "rev (lru_sizes c) = (k, s) # rev (butlast (lru_sizes c))"
    by (metis rev.simps(2) rev_rev_ident rev_swap)
  have lru: "lru_sizes (pop_from_cache c) = butlast (lru_sizes c)"
    and used: "cache_used (pop_from_cache c) = cache_used c - s"
    and size: "cache_size (pop_from_cache c) = cache_size c"
    by (simp_all add: pop_from_cache_def rv)
  show "distinct (map fst (lru_sizes (pop_from_cache c)))"
    unfolding lru using assms(2) by (simp add: distinct_butlast map_butlast)
  have "sum_list (map snd (lru_sizes c)) = sum_list (map snd (butlast (lru_sizes c))) + s"
    by (subst sp) simp
  then show "cache_used (pop_from_cache c) = sum_list (map snd (lru_sizes (pop_from_cache c)))"
    unfolding lru used using assms(3) by simp
  show "cache_size (pop_from_cache c) = cache_size c" by (rule size)
  show "set (lru_sizes (pop_from_cache c)) \<subseteq> set (lru_sizes c)"
    unfolding lru by (auto dest: in_set_butlastD)
qed

lemma free_up_space_props:
  "distinct (map fst (lru_sizes c)) \<Longrightarrow> cache_used c = sum_list (map snd (lru_sizes c))
   \<Longrightarrow> distinct (map fst (lru_sizes (free_up_space extra c)))
       \<and> cache_used (free_up_space extra c)
           = sum_list (map snd (lru_sizes (free_up_space extra c)))
       \<and> cache_size (free_up_space extra c) = cache_size c
       \<and> set (lru_sizes (free_up_space extra c)) \<subseteq> set (lru_sizes c)
       \<and> (lru_sizes (free_up_space extra c) = []
          \<or> cache_used (free_up_space extra c) + extra \<le> cache_size c)"
proof (induction extra c rule: free_up_space.induct)
  case (1 extra c)
  show ?case
  proof (cases "lru_sizes c \<noteq> [] \<and> cache_size c < cache_used c + extra")
    case True
    then have ne: "lru_sizes c \<noteq> []" by simp
    note p = pop_from_cache_props[OF ne "1.prems"]
    from "1.IH"[OF True p(1) p(2)] p(3) p(4)
    have ih: "distinct (map fst (lru_sizes (free_up_space extra (pop_from_cache c))))
       \<and> cache_used (free_up_space extra (pop_from_cache c))
           = sum_list (map snd (lru_sizes (free_up_space extra (pop_from_cache c))))
       \<and> cache_size (free_up_space extra (pop_from_cache c)) = cache_size c
       \<and> set (lru_sizes (free_up_space extra (pop_from_cache c))) \<subseteq> set (lru_sizes c)
       \<and> (lru_sizes (free_up_space extra (pop_from_cache c)) = []
          \<or> cache_used (free_up_space extra (pop_from_cache c)) + extra \<le> cache_size c)"
      by auto
    have eq: "free_up_space extra c = free_up_space extra (pop_from_cache c)"
      using True by (subst free_up_space.simps) simp
    show ?thesis unfolding eq by (rule ih)
  next
    case False
    have "free_up_space extra c = c"
      by (subst free_up_space.simps) (rule if_not_P[OF False])
    with False "1.prems" show ?thesis by auto
  qed
qed

lemma insert_in_cache_inv:
  assumes "distinct (map fst (lru_sizes c))"
    and "cache_used c = sum_list (map snd (lru_sizes c))"
    and "k \<notin> fst ` set (lru_sizes c)"
  shows "lru_inv (insert_in_cache c k v)"
    and "cache_size (insert_in_cache c k v) = cache_size c"
proof -
  let ?c1 = "free_up_space (length v) c"
  from free_up_space_props[OF assms(1,2), of "length v"]
  have d: "distinct (map fst (lru_sizes ?c1))"
    and u: "cache_used ?c1 = sum_list (map snd (lru_sizes ?c1))"
    and sz: "cache_size ?c1 = cache_size c"
    and sub: "set (lru_sizes ?c1) \<subseteq> set (lru_sizes c)"
    and room: "lru_sizes ?c1 = [] \<or> cache_used ?c1 + length v \<le> cache_size c"
    by blast+
  have notin: "k \<notin> fst ` set (lru_sizes ?c1)" using assms(3) sub by auto
  show "cache_size (insert_in_cache c k v) = cache_size c"
    by (simp add: insert_in_cache_def Let_def sz)
  from room show "lru_inv (insert_in_cache c k v)"
  proof
    assume e: "lru_sizes ?c1 = []"
    then have "cache_used ?c1 = 0" using u by simp
    with e show ?thesis by (auto simp: lru_inv_def insert_in_cache_def Let_def sz)
  next
    assume "cache_used ?c1 + length v \<le> cache_size c"
    with d u notin show ?thesis by (simp add: lru_inv_def insert_in_cache_def Let_def sz)
  qed
qed

lemma forget_key_props:
  assumes "lru_inv c"
  shows "lru_inv (forget_key c k)"
    and "k \<notin> fst ` set (lru_sizes (forget_key c k))"
    and "cache_size (forget_key c k) = cache_size c"
proof -
  have d: "distinct (map fst (lru_sizes c))"
    and u: "cache_used c = sum_list (map snd (lru_sizes c))"
    and bud: "cache_used c \<le> cache_size c
              \<or> (length (lru_sizes c) = 1 \<and> cache_size c < snd (hd (lru_sizes c)))"
    using lru_invD[OF assms] by blast+
  show "cache_size (forget_key c k) = cache_size c"
    by (simp add: forget_key_def split: option.splits)
  show "k \<notin> fst ` set (lru_sizes (forget_key c k))"
  proof (cases "map_of (lru_sizes c) k")
    case None
    then have "k \<notin> fst ` set (lru_sizes c)" by (simp add: map_of_eq_None_iff)
    with None show ?thesis by (simp add: forget_key_def)
  next
    case (Some s)
    then show ?thesis by (auto simp: forget_key_def)
  qed
  show "lru_inv (forget_key c k)"
  proof (cases "map_of (lru_sizes c) k")
    case None
    then show ?thesis using assms by (simp add: forget_key_def)
  next
    case (Some s)
    let ?xs = "filter (\<lambda>p. fst p \<noteq> k) (lru_sizes c)"
    from sum_without_key[OF d Some] have sum: "sum_list (map snd ?xs) + s = cache_used c"
      using u by simp
    have d': "distinct (map fst ?xs)" using d by (simp add: distinct_map_filter)
    have "cache_used c - s \<le> cache_size c \<or> (length ?xs = 1 \<and> cache_size c < snd (hd ?xs))"
      using bud
    proof
      assume "cache_used c \<le> cache_size c"
      then have "cache_used c - s \<le> cache_size c" by arith
      then show ?thesis by (rule disjI1)
    next
      assume a: "length (lru_sizes c) = 1 \<and> cache_size c < snd (hd (lru_sizes c))"
      then obtain p where p: "lru_sizes c = [p]" by (cases "lru_sizes c") auto
      with Some have "p = (k, s)" by (cases p) (auto split: if_splits)
      with p u have "cache_used c - s = 0" by simp
      then have "cache_used c - s \<le> cache_size c" by arith
      then show ?thesis by (rule disjI1)
    qed
    with d' sum Some show ?thesis by (simp add: lru_inv_def forget_key_def)
  qed
qed

lemma lru_inv_fields:
  "lru_sizes c' = lru_sizes c \<Longrightarrow> cache_used c' = cache_used c \<Longrightarrow> cache_size c' = cache_size c
   \<Longrightarrow> lru_inv c' = lru_inv c"
  by (simp add: lru_inv_def)

lemma lru_get_inv: "lru_inv c \<Longrightarrow> lru_inv (snd (lru_get c k))"
proof -
  assume inv: "lru_inv c"
  have d: "distinct (map fst (lru_sizes c))"
    and u: "cache_used c = sum_list (map snd (lru_sizes c))"
    and bud: "cache_used c \<le> cache_size c
              \<or> (length (lru_sizes c) = 1 \<and> cache_size c < snd (hd (lru_sizes c)))"
    using lru_invD[OF inv] by blast+
  show ?thesis
  proof (cases "map_of (lru_sizes c) k")
    case None
    then have notin: "k \<notin> fst ` set (lru_sizes c)" by (simp add: map_of_eq_None_iff)
    show ?thesis
    proof (cases "next_storage c k")
      case n: None
      with None inv show ?thesis by (simp add: lru_get_def)
    next
      case (Some v)
      with None insert_in_cache_inv(1)[OF d u notin, of v] show ?thesis
        by (simp add: lru_get_def)
    qed
  next
    case (Some s)
    let ?xs = "filter (\<lambda>p. fst p \<noteq> k) (lru_sizes c)"
    let ?c' = "c\<lparr>lru_sizes := (k, s) # ?xs\<rparr>"
    from sum_without_key[OF d Some] have sum: "sum_list (map snd ?xs) + s = cache_used c"
      using u by simp
    have d': "distinct (map fst ((k, s) # ?xs))"
      using d by (auto simp: distinct_map_filter)
    have "cache_used c \<le> cache_size c
          \<or> (length ((k, s) # ?xs) = 1 \<and> cache_size c < snd (hd ((k, s) # ?xs)))"
      using bud
    proof
      assume "cache_used c \<le> cache_size c"
      then show ?thesis by (rule disjI1)
    next
      assume a: "length (lru_sizes c) = 1 \<and> cache_size c < snd (hd (lru_sizes c))"
      then obtain p where p: "lru_sizes c = [p]" by (cases "lru_sizes c") auto
      with Some have "p = (k, s)" by (cases p) (auto split: if_splits)
      with p a show ?thesis by simp
    qed
    with d' sum have "lru_inv ?c'" by (simp add: lru_inv_def)
    with Some inv show ?thesis by (simp add: lru_get_def split: option.splits)
  qed
qed

lemma lru_put_inv: "lru_inv c \<Longrightarrow> lru_inv (lru_put c k v)"
proof -
  assume inv: "lru_inv c"
  note f = forget_key_props[OF inv, of k]
  from f(1) have d: "distinct (map fst (lru_sizes (forget_key c k)))"
    and u: "cache_used (forget_key c k) = sum_list (map snd (lru_sizes (forget_key c k)))"
    by (blast dest: lru_invD)+
  from insert_in_cache_inv(1)[OF d u f(2), of v]
  show ?thesis by (simp add: lru_put_def Let_def)
qed

lemma lru_delete_inv: "lru_inv c \<Longrightarrow> lru_inv (snd (lru_delete c k))"
proof -
  assume inv: "lru_inv c"
  from forget_key_props(1)[OF inv, of k] inv
  show ?thesis by (simp add: lru_delete_def)
qed

lemma lru_flush_inv: "lru_inv c \<Longrightarrow> lru_inv (lru_flush c)"
  by (simp add: lru_flush_def)

lemma lru_size_preserved:
  "lru_inv c \<Longrightarrow>
   cache_size (snd (lru_get c k)) = cache_size c \<and> cache_size (lru_put c k v) = cache_size c
   \<and> cache_size (snd (lru_delete c k)) = cache_size c \<and> cache_size (lru_flush c) = cache_size c"
proof -
  assume inv: "lru_inv c"
  have d: "distinct (map fst (lru_sizes c))"
    and u: "cache_used c = sum_list (map snd (lru_sizes c))"
    using lru_invD[OF inv] by blast+
  note f = forget_key_props[OF inv, of k]
  from f(1) have fd: "distinct (map fst (lru_sizes (forget_key c k)))"
    and fu: "cache_used (forget_key c k) = sum_list (map snd (lru_sizes (forget_key c k)))"
    by (blast dest: lru_invD)+
  have g: "cache_size (snd (lru_get c k)) = cache_size c"
  proof (cases "map_of (lru_sizes c) k")
    case None
    then have notin: "k \<notin> fst ` set (lru_sizes c)" by (simp add: map_of_eq_None_iff)
    show ?thesis
      using None insert_in_cache_inv(2)[OF d u notin]
      by (simp add: lru_get_def split: option.splits)
  next
    case (Some s)
    then show ?thesis by (simp add: lru_get_def split: option.splits)
  qed
  have p: "cache_size (lru_put c k v) = cache_size c"
    using insert_in_cache_inv(2)[OF fd fu f(2), of v] f(3) by (simp add: lru_put_def Let_def)
  have dl: "cache_size (snd (lru_delete c k)) = cache_size c"
    using f(3) by (simp add: lru_delete_def)
  have fl: "cache_size (lru_flush c) = cache_size c" by (simp add: lru_flush_def)
  from g p dl fl show ?thesis by simp
qed

lemma new_lru_cache_inv: "lru_inv (new_lru_cache budget)"
  by (simp add: lru_inv_def new_lru_cache_def)

lemma lru_scenario_S4:
  "map fst (lru_sizes example_tier) = [''f3'', ''f2'']
   \<and> dirty_keys example_tier = {''f2'', ''f3''}
   \<and> cache_used example_tier = 4
   \<and> next_storage example_tier ''f1'' = Some [0, 0]
   \<and> next_storage example_tier ''f2'' = None
   \<and> next_storage example_tier ''f3'' = None"
  by code_simp

lemma lru_scenario_S5:
  "map fst (lru_sizes (snd (lru_get example_tier ''f1''))) = [''f1'', ''f3'']
   \<and> dirty_keys (snd (lru_get example_tier ''f1'')) = {''f3''}
   \<and> next_storage (snd (lru_get example_tier ''f1'')) ''f1'' = Some [0, 0]
   \<and> next_storage (snd (lru_get example_tier ''f1'')) ''f2'' = Some [0, 0]
   \<and> next_storage (snd (lru_get example_tier ''f1'')) ''f3'' = None"
  by code_simp

text \<open>
  C8. For an LRU cache tier with byte budget \<open>B\<close>, at the end of every cache operation
  (\<open>get\<close>, \<open>put\<close>, \<open>delete\<close>, \<open>flush\<close>) \<open>cache_used\<close> equals the sum of the values in
  \<open>lru_sizes\<close> and \<open>cache_used \<le> B\<close>, except that a single stored entry larger than \<open>B\<close> may
  make the tier exceed the budget by that one entry. This is \<open>lru_inv\<close>: it holds of a new
  tier for every budget, every operation keeps it, and no operation changes the budget.
\<close>

theorem lru_budget:
  "lru_inv (new_lru_cache B)
   \<and> (lru_inv c \<longrightarrow>
        lru_inv (snd (lru_get c k)) \<and> cache_size (snd (lru_get c k)) = cache_size c
        \<and> lru_inv (lru_put c k v) \<and> cache_size (lru_put c k v) = cache_size c
        \<and> lru_inv (snd (lru_delete c k)) \<and> cache_size (snd (lru_delete c k)) = cache_size c
        \<and> lru_inv (lru_flush c) \<and> cache_size (lru_flush c) = cache_size c)"
proof (intro conjI impI)
  show "lru_inv (new_lru_cache B)" by (rule new_lru_cache_inv)
next
  assume inv: "lru_inv c"
  from lru_size_preserved[OF inv, of k v]
  show "cache_size (snd (lru_get c k)) = cache_size c"
    and "cache_size (lru_put c k v) = cache_size c"
    and "cache_size (snd (lru_delete c k)) = cache_size c"
    and "cache_size (lru_flush c) = cache_size c"
    by blast+
  show "lru_inv (snd (lru_get c k))" by (rule lru_get_inv[OF inv])
  show "lru_inv (lru_put c k v)" by (rule lru_put_inv[OF inv])
  show "lru_inv (snd (lru_delete c k))" by (rule lru_delete_inv[OF inv])
  show "lru_inv (lru_flush c)" by (rule lru_flush_inv[OF inv])
qed

theorem lru_budget_witness:
  "lru_inv example_tier
   \<and> cache_size example_tier = 4
   \<and> cache_used example_tier = sum_list (map snd (lru_sizes example_tier))
   \<and> cache_used example_tier \<le> 4
   \<and> lru_inv (snd (lru_get example_tier ''f1''))
   \<and> lru_inv (lru_put example_tier ''f4'' [0, 0, 0, 0, 0])
   \<and> cache_used (lru_put example_tier ''f4'' [0, 0, 0, 0, 0]) = 5
   \<and> lru_inv (snd (lru_delete example_tier ''f2''))
   \<and> lru_inv (lru_flush example_tier)"
proof -
  have h: "lru_inv example_tier" by code_simp
  have s: "cache_size example_tier = 4"
    and u: "cache_used example_tier = sum_list (map snd (lru_sizes example_tier))"
    and b: "cache_used example_tier \<le> 4"
    and o: "cache_used (lru_put example_tier ''f4'' [0, 0, 0, 0, 0]) = 5"
    by code_simp+
  from lru_budget[of 4 example_tier "''f1''" "[0, 0, 0, 0, 0]"] h
  have g: "lru_inv (snd (lru_get example_tier ''f1''))"
    and f: "lru_inv (lru_flush example_tier)"
    by blast+
  from lru_budget[of 4 example_tier "''f4''" "[0, 0, 0, 0, 0]"] h
  have p: "lru_inv (lru_put example_tier ''f4'' [0, 0, 0, 0, 0])" by blast
  from lru_budget[of 4 example_tier "''f2''" "[]"] h
  have d: "lru_inv (snd (lru_delete example_tier ''f2''))" by blast
  from h s u b g p o d f show ?thesis by (intro conjI)
qed

end
